theory Spec2Isabelle
  imports Main
begin

section \<open>Data model\<close>

text \<open>
  The trimming and deletion logic of \<^verbatim>\<open>operators_temp.py\<close>. Python exceptions are
  values of type \<open>error\<close>; a function that can raise returns \<open>error + 'a\<close>.
  Coordinates are float vectors in the source; no property below computes with them, so they
  are pairs of integers here, and the ordering key \<^verbatim>\<open>distance_along_segment\<close>
  (a method of the segment classes, which are not part of this file) is a parameter \<open>das\<close>
  with values in a linear order.
\<close>

datatype error = IndexError | ValueError | ReferenceError | AttributeError

type_synonym coord = "int \<times> int"

datatype entity_kind = Point2D | Line2D | Arc | Circle | Sketch | Workplane

datatype ctype =
  COINCIDENT | EQUAL | DISTANCE | ANGLE | DIAMETER | PARALLEL | HORIZONTAL | VERTICAL
  | TANGENT | MIDPOINT | PERPENDICULAR | RATIO

text \<open>
  Modelled from the spec: the entity and constraint classes of \<^verbatim>\<open>class_defines\<close>.
  An entity is owned by the scene under its integer index \<^verbatim>\<open>slvs_index\<close>; the entities
  it relies on (\<^verbatim>\<open>dependencies()\<close>) and its endpoints (\<^verbatim>\<open>connection_points()\<close>) are
  kept as indices. A constraint references entities through its fields
  \<^verbatim>\<open>entity1_i\<close>, \<^verbatim>\<open>entity2_i\<close>, ... (the list \<open>entity_is\<close>, in that order);
  \<open>cid\<close> stands for the identity of the Python object.
\<close>

record entity =
  slvs_index :: nat
  kind :: entity_kind
  location :: coord
  dependency_is :: "nat list"
  connection_is :: "nat list"
  sketch_i :: "nat option"
  selected :: bool

record constr =
  cid :: nat
  type :: ctype
  entity_is :: "nat list"

text \<open>
  An \<^verbatim>\<open>Intersection\<close> holds its element, an entity object or a constraint object.
  Of the object held, only what cannot change is read: its class (\<open>kind\<close>, \<open>type\<close>) and
  its identity (\<open>slvs_index\<close>, \<open>cid\<close>); every other attribute is read from the scene.
  \<^verbatim>\<open>_is_endpoint\<close> and \<^verbatim>\<open>_point\<close> are the fields \<open>is_endpoint_flag\<close> and
  \<open>point_cache\<close>; a point entity is referenced by its index.
\<close>

datatype elem = EntityElem entity | ConstraintElem constr

record Intersection =
  element :: elem
  co :: coord
  index :: int
  is_endpoint_flag :: bool
  point_cache :: "nat option"

text \<open>
  A \<^verbatim>\<open>TrimSegment\<close> owns its intersections in creation order; a reference to an
  \<^verbatim>\<open>Intersection\<close> object is its position in \<open>intersections\<close>, so that the lists
  the source builds of these objects (\<^verbatim>\<open>ordered\<close>, \<^verbatim>\<open>relevant\<close>,
  \<^verbatim>\<open>obsolete_intersections\<close>) are lists of positions and \<^verbatim>\<open>in\<close> compares identities.
\<close>

record TrimSegment =
  segment :: entity
  pos :: coord
  intersections :: "Intersection list"
  is_closed_flag :: bool
  connection_points :: "entity option list"
  obsolete_intersections :: "nat list"
  reuse_segment :: bool

section \<open>Intersection\<close>

definition new_Intersection :: "elem \<Rightarrow> coord \<Rightarrow> Intersection" where
  "new_Intersection e c =
     \<lparr>element = e, co = c, index = -1, is_endpoint_flag = False, point_cache = None\<rparr>"

definition is_entity :: "Intersection \<Rightarrow> bool" where
  "is_entity intr = (case element intr of EntityElem _ \<Rightarrow> True | ConstraintElem _ \<Rightarrow> False)"

definition is_constraint :: "Intersection \<Rightarrow> bool" where
  "is_constraint intr = (case element intr of EntityElem _ \<Rightarrow> False | ConstraintElem _ \<Rightarrow> True)"

definition is_endpoint :: "Intersection \<Rightarrow> bool" where
  "is_endpoint intr = is_endpoint_flag intr"

section \<open>TrimSegment: collecting, ordering and classifying\<close>

definition add :: "elem \<Rightarrow> coord \<Rightarrow> TrimSegment \<Rightarrow> nat \<times> TrimSegment" where
  "add e c ts =
     (length (intersections ts),
      ts\<lparr>intersections := intersections ts @ [new_Intersection e c]\<rparr>)"

definition add_endpoint :: "entity \<Rightarrow> TrimSegment \<Rightarrow> TrimSegment" where
  "add_endpoint p ts =
     (case add (EntityElem p) (location p) ts of
        (r, ts') \<Rightarrow>
          ts'\<lparr>intersections :=
                (intersections ts')[r := (intersections ts' ! r)\<lparr>is_endpoint_flag := True\<rparr>]\<rparr>)"

text \<open>
  \<^verbatim>\<open>TrimSegment.__init__\<close>. The results of \<^verbatim>\<open>segment.is_closed()\<close> and
  \<^verbatim>\<open>segment.connection_points()\<close> are the arguments \<open>closed\<close> and \<open>cps\<close>; a
  connection point can be \<^verbatim>\<open>None\<close>, whose \<^verbatim>\<open>co\<close> cannot be read.
\<close>

fun add_endpoints :: "entity option list \<Rightarrow> TrimSegment \<Rightarrow> error + TrimSegment" where
  "add_endpoints [] ts = Inr ts"
| "add_endpoints (None # cps) ts = Inl AttributeError"
| "add_endpoints (Some p # cps) ts = add_endpoints cps (add_endpoint p ts)"

definition new_TrimSegment ::
  "entity \<Rightarrow> bool \<Rightarrow> entity option list \<Rightarrow> coord \<Rightarrow> error + TrimSegment" where
  "new_TrimSegment seg closed cps p =
     (let ts = \<lparr>segment = seg, pos = p, intersections = [], is_closed_flag = closed,
                connection_points = cps, obsolete_intersections = [], reuse_segment = False\<rparr>
      in if \<not> closed then add_endpoints cps ts else Inr ts)"

text \<open>
  \<^verbatim>\<open>_sorted\<close>: Python's \<^verbatim>\<open>sorted\<close> is stable, as is \<open>sort_key\<close> (insertion sort).
\<close>

definition sorted_refs ::
  "(entity \<Rightarrow> coord \<Rightarrow> coord \<Rightarrow> 'k::linorder) \<Rightarrow> TrimSegment \<Rightarrow> nat list" where
  "sorted_refs das ts =
     sort_key (\<lambda>r. das (segment ts) (pos ts) (co (intersections ts ! r)))
       [0..<length (intersections ts)]"

fun assign_indices :: "nat list \<Rightarrow> int \<Rightarrow> Intersection list \<Rightarrow> Intersection list" where
  "assign_indices [] i xs = xs"
| "assign_indices (r # rs) i xs = assign_indices rs (i + 1) (xs[r := (xs ! r)\<lparr>index := i\<rparr>])"

definition get_intersections ::
  "(entity \<Rightarrow> coord \<Rightarrow> coord \<Rightarrow> 'k::linorder) \<Rightarrow> TrimSegment \<Rightarrow> nat list \<times> TrimSegment" where
  "get_intersections das ts =
     (let sorted_intersections = sorted_refs das ts
      in (sorted_intersections,
          ts\<lparr>intersections := assign_indices sorted_intersections 0 (intersections ts)\<rparr>))"

definition mark_obsolete :: "nat \<Rightarrow> TrimSegment \<Rightarrow> TrimSegment" where
  "mark_obsolete r ts =
     (if r \<notin> set (obsolete_intersections ts)
      then ts\<lparr>obsolete_intersections := obsolete_intersections ts @ [r]\<rparr>
      else ts)"

definition in_closest :: "int \<Rightarrow> int \<times> int \<Rightarrow> bool" where
  "in_closest i closest = (i = fst closest \<or> i = snd closest)"

text \<open>The body of the loop of \<^verbatim>\<open>relevant_intersections\<close>, for the intersection \<open>r\<close>.\<close>

definition relevant_step ::
  "int \<times> int \<Rightarrow> nat \<Rightarrow> nat list \<times> TrimSegment \<Rightarrow> nat list \<times> TrimSegment" where
  "relevant_step closest r acc =
     (case acc of (relevant, ts) \<Rightarrow>
        let intr = intersections ts ! r in
        if is_endpoint intr \<and> in_closest (index intr) closest
        then (relevant, mark_obsolete r ts)
        else
          let relevant1 = (if is_endpoint intr then relevant @ [r] else relevant) in
          if in_closest (index intr) closest
          then (relevant1 @ [r], if is_constraint intr then mark_obsolete r ts else ts)
          else (relevant1, ts))"

text \<open>
  \<^verbatim>\<open>relevant_intersections\<close>: \<^verbatim>\<open>ordered[0]\<close> raises \<^verbatim>\<open>IndexError\<close> when nothing
  was collected.
\<close>

definition relevant_intersections ::
  "(entity \<Rightarrow> coord \<Rightarrow> coord \<Rightarrow> 'k::linorder) \<Rightarrow> TrimSegment \<Rightarrow> error + nat list \<times> TrimSegment" where
  "relevant_intersections das ts =
     (case get_intersections das ts of (ordered, ts1) \<Rightarrow>
        if ordered = [] then Inl IndexError
        else
          let closest = (index (intersections ts1 ! hd ordered),
                         index (intersections ts1 ! last ordered))
          in Inr (fold (relevant_step closest) ordered ([], ts1)))"

definition check ::
  "(entity \<Rightarrow> coord \<Rightarrow> coord \<Rightarrow> 'k::linorder) \<Rightarrow> TrimSegment \<Rightarrow> error + bool \<times> TrimSegment" where
  "check das ts =
     (case relevant_intersections das ts of
        Inl e \<Rightarrow> Inl e
      | Inr (relevant, ts') \<Rightarrow> Inr (length relevant = 2 \<or> length relevant = 4, ts'))"

section \<open>The scene\<close>

text \<open>
  Modelled from the spec: the scene's entity store and constraint store (section 6 of the
  specification; their classes are not part of this file). The entity store supports
  \<^verbatim>\<open>get(index)\<close>, \<^verbatim>\<open>add_point_2d(co, sketch)\<close>, \<^verbatim>\<open>remove(index)\<close> and the
  enumeration \<^verbatim>\<open>all\<close>. The constraint store is grouped into one collection per
  constraint type (\<^verbatim>\<open>get_lists()\<close>); a collection is referenced by its position in that
  grouping, and removing the item at a local index shifts the items behind it.
\<close>

record scene =
  entities :: "entity list"
  constraints :: "(ctype \<times> constr list) list"
  active_sketch_i :: int

definition entities_get :: "scene \<Rightarrow> int \<Rightarrow> entity option" where
  "entities_get s i = find (\<lambda>e. int (slvs_index e) = i) (entities s)"

definition entities_remove :: "nat \<Rightarrow> scene \<Rightarrow> scene" where
  "entities_remove i s = s\<lparr>entities := filter (\<lambda>e. slvs_index e \<noteq> i) (entities s)\<rparr>"

definition fresh_index :: "scene \<Rightarrow> nat" where
  "fresh_index s = Suc (fold max (map slvs_index (entities s)) 0)"

definition active_sketch :: "scene \<Rightarrow> nat option" where
  "active_sketch s = map_option slvs_index (entities_get s (active_sketch_i s))"

definition add_point_2d :: "coord \<Rightarrow> nat option \<Rightarrow> scene \<Rightarrow> nat \<times> scene" where
  "add_point_2d c sketch s =
     (let p = \<lparr>slvs_index = fresh_index s, kind = Point2D, location = c,
                dependency_is = (case sketch of None \<Rightarrow> [] | Some k \<Rightarrow> [k]),
                connection_is = [], sketch_i = sketch, selected = False\<rparr>
      in (slvs_index p, s\<lparr>entities := entities s @ [p]\<rparr>))"

definition constraints_all :: "scene \<Rightarrow> constr list" where
  "constraints_all s = concat (map snd (constraints s))"

definition fresh_cid :: "scene \<Rightarrow> nat" where
  "fresh_cid s = Suc (fold max (map cid (constraints_all s)) 0)"

fun append_to_coll :: "ctype \<Rightarrow> constr \<Rightarrow> (ctype \<times> constr list) list \<Rightarrow> (ctype \<times> constr list) list" where
  "append_to_coll t c [] = [(t, [c])]"
| "append_to_coll t c ((k, l) # cs) =
     (if k = t then (k, l @ [c]) # cs else (k, l) # append_to_coll t c cs)"

definition new_constraint :: "ctype \<Rightarrow> nat list \<Rightarrow> scene \<Rightarrow> nat \<times> scene" where
  "new_constraint t ents s =
     (let c = \<lparr>cid = fresh_cid s, type = t, entity_is = ents\<rparr>
      in (cid c, s\<lparr>constraints := append_to_coll t c (constraints s)\<rparr>))"

definition add_coincident :: "nat \<Rightarrow> nat \<Rightarrow> scene \<Rightarrow> nat \<times> scene" where
  "add_coincident p e s = new_constraint COINCIDENT [p, e] s"

definition coll_remove :: "nat \<Rightarrow> nat \<Rightarrow> scene \<Rightarrow> scene" where
  "coll_remove k i s =
     (case constraints s ! k of
        (t, data_coll) \<Rightarrow>
          s\<lparr>constraints := (constraints s)[k := (t, take i data_coll @ drop (Suc i) data_coll)]\<rparr>)"

section \<open>Dependency queries\<close>

text \<open>
  Modelled from the spec: \<^verbatim>\<open>dependencies()\<close> of an entity lists the entities it relies
  on, each looked up in the scene by the index the entity stores. An entity object is
  identified by its index, so an item of that list is \<open>Some i\<close> for the live entity with
  index \<open>i\<close> and \<open>None\<close> for a dead index, whose lookup gives the one object \<^verbatim>\<open>None\<close>.
\<close>

definition entity_by_index :: "scene \<Rightarrow> nat \<Rightarrow> nat option" where
  "entity_by_index s i = map_option slvs_index (entities_get s (int i))"

definition dependencies_of :: "scene \<Rightarrow> entity \<Rightarrow> nat option list" where
  "dependencies_of s e = map (entity_by_index s) (dependency_is e)"

definition dependencies :: "scene \<Rightarrow> nat \<Rightarrow> nat option list" where
  "dependencies s i =
     (case entities_get s (int i) of None \<Rightarrow> [] | Some e \<Rightarrow> dependencies_of s e)"

text \<open>
  \<^verbatim>\<open>get_flat_deps\<close>: the closure \<^verbatim>\<open>walker\<close> appends to one shared list, which is
  threaded through the calls here. \<open>walker\<close> is the call for an object that is not the root:
  it appends the object and, when the object is \<^verbatim>\<open>None\<close>, returns, since \<^verbatim>\<open>None\<close> has no
  attribute \<^verbatim>\<open>dependencies\<close>; \<open>walk_dependencies\<close> is the \<^verbatim>\<open>for\<close> loop over the
  dependencies of an entity. The call for the root finds the list empty and does not append,
  so it is the loop alone. The recursion ends because every call of \<open>walker\<close> that goes on
  appends an item of the finite set \<open>dependency_universe\<close> that the list did not hold.
\<close>

definition dependency_universe :: "scene \<Rightarrow> nat option set" where
  "dependency_universe s = (\<Union>e \<in> set (entities s). set (dependencies_of s e))"

function walker :: "scene \<Rightarrow> nat option list \<Rightarrow> nat option \<Rightarrow> nat option list"
  and walk_dependencies :: "scene \<Rightarrow> nat option list \<Rightarrow> nat option list \<Rightarrow> nat option list"
  where
  "walker s acc d =
     (if d \<in> set acc then acc
      else case d of
          None \<Rightarrow> acc @ [d]
        | Some i \<Rightarrow> walk_dependencies s (acc @ [d]) (dependencies s i))"
| "walk_dependencies s acc [] = acc"
| "walk_dependencies s acc (e # es) =
     (if e \<in> set acc then walk_dependencies s acc es
      else walk_dependencies s (walker s acc e) es)"
  by pat_completeness auto
termination
proof (relation "measures
    [\<lambda>x. case x of
        Inl (s, acc, d) \<Rightarrow> card (insert d (dependency_universe s) - set acc)
      | Inr (s, acc, es) \<Rightarrow> card ((set es \<union> dependency_universe s) - set acc),
     \<lambda>x. case x of Inl (s, acc, d) \<Rightarrow> 0 | Inr (s, acc, es) \<Rightarrow> Suc (length es)]")
  show "wf (measures
    [\<lambda>x. case x of
        Inl (s, acc, d) \<Rightarrow> card (insert d (dependency_universe s) - set acc)
      | Inr (s, acc, es) \<Rightarrow> card ((set es \<union> dependency_universe s) - set acc),
     \<lambda>x. case x of Inl (s, acc, d) \<Rightarrow> 0 | Inr (s, acc, es) \<Rightarrow> Suc (length es)])"
    by simp
next
  fix s :: scene and acc :: "nat option list" and d :: "nat option" and i :: nat
  assume d: "d \<notin> set acc" and di: "d = Some i"
  have fin: "finite (dependency_universe s)"
    by (simp add: dependency_universe_def)
  have sub: "set (dependencies s i) \<subseteq> dependency_universe s"
  proof (cases "entities_get s (int i)")
    case None
    then show ?thesis by (simp add: dependencies_def)
  next
    case (Some e)
    then have "e \<in> set (entities s)"
      unfolding entities_get_def find_Some_iff by auto
    with Some show ?thesis by (auto simp: dependencies_def dependency_universe_def)
  qed
  have "(set (dependencies s i) \<union> dependency_universe s) - set (acc @ [d])
      \<subset> insert d (dependency_universe s) - set acc"
    using d sub by auto
  then have "card ((set (dependencies s i) \<union> dependency_universe s) - set (acc @ [d]))
      < card (insert d (dependency_universe s) - set acc)"
    using fin by (intro psubset_card_mono) simp_all
  then show "(Inr (s, acc @ [d], dependencies s i), Inl (s, acc, d)) \<in> measures
    [\<lambda>x. case x of
        Inl (s, acc, d) \<Rightarrow> card (insert d (dependency_universe s) - set acc)
      | Inr (s, acc, es) \<Rightarrow> card ((set es \<union> dependency_universe s) - set acc),
     \<lambda>x. case x of Inl (s, acc, d) \<Rightarrow> 0 | Inr (s, acc, es) \<Rightarrow> Suc (length es)]"
    by simp
next
  fix s :: scene and acc :: "nat option list" and e :: "nat option" and es :: "nat option list"
  assume "e \<in> set acc"
  then have "(set (e # es) \<union> dependency_universe s) - set acc
      = (set es \<union> dependency_universe s) - set acc"
    by auto
  then show "(Inr (s, acc, es), Inr (s, acc, e # es)) \<in> measures
    [\<lambda>x. case x of
        Inl (s, acc, d) \<Rightarrow> card (insert d (dependency_universe s) - set acc)
      | Inr (s, acc, es) \<Rightarrow> card ((set es \<union> dependency_universe s) - set acc),
     \<lambda>x. case x of Inl (s, acc, d) \<Rightarrow> 0 | Inr (s, acc, es) \<Rightarrow> Suc (length es)]"
    by simp
next
  fix s :: scene and acc :: "nat option list" and e :: "nat option" and es :: "nat option list"
  assume "e \<notin> set acc"
  have fin: "finite (dependency_universe s)"
    by (simp add: dependency_universe_def)
  have "card (insert e (dependency_universe s) - set acc)
      \<le> card ((set (e # es) \<union> dependency_universe s) - set acc)"
    using fin by (intro card_mono) auto
  then show "(Inl (s, acc, e), Inr (s, acc, e # es)) \<in> measures
    [\<lambda>x. case x of
        Inl (s, acc, d) \<Rightarrow> card (insert d (dependency_universe s) - set acc)
      | Inr (s, acc, es) \<Rightarrow> card ((set es \<union> dependency_universe s) - set acc),
     \<lambda>x. case x of Inl (s, acc, d) \<Rightarrow> 0 | Inr (s, acc, es) \<Rightarrow> Suc (length es)]"
    by auto
next
  fix s :: scene and acc :: "nat option list" and e :: "nat option" and es :: "nat option list"
  assume dom: "walker_walk_dependencies_dom (Inl (s, acc, e))"
  have grows: "walker_walk_dependencies_dom (Inl (s', acc', d')) \<Longrightarrow>
        set acc' \<subseteq> set (walker s' acc' d')"
    and "walker_walk_dependencies_dom (Inr (s', acc', es')) \<Longrightarrow>
        set acc' \<subseteq> set (walk_dependencies s' acc' es')"
    for s' acc' d' es'
  proof (induction s' acc' d' and s' acc' es' rule: walker_walk_dependencies.pinduct)
    case (1 s acc d)
    then show ?case by (auto simp: walker.psimps split: option.splits)
  next
    case (2 s acc)
    then show ?case by (simp add: walk_dependencies.psimps)
  next
    case (3 s acc e es)
    then show ?case by (auto simp: walk_dependencies.psimps)
  qed
  have fin: "finite (dependency_universe s)"
    by (simp add: dependency_universe_def)
  have "card ((set es \<union> dependency_universe s) - set (walker s acc e))
      \<le> card ((set (e # es) \<union> dependency_universe s) - set acc)"
    using fin grows [OF dom] by (intro card_mono) auto
  then show "(Inr (s, walker s acc e, es), Inr (s, acc, e # es)) \<in> measures
    [\<lambda>x. case x of
        Inl (s, acc, d) \<Rightarrow> card (insert d (dependency_universe s) - set acc)
      | Inr (s, acc, es) \<Rightarrow> card ((set es \<union> dependency_universe s) - set acc),
     \<lambda>x. case x of Inl (s, acc, d) \<Rightarrow> 0 | Inr (s, acc, es) \<Rightarrow> Suc (length es)]"
    by auto
qed

text \<open>
  The list holds entity objects; \<^verbatim>\<open>entity in deps\<close> in \<^verbatim>\<open>get_entity_deps\<close> asks for the
  object of \<open>entity\<close>, which is \<open>Some\<close> of its index.
\<close>

definition get_flat_deps :: "scene \<Rightarrow> entity \<Rightarrow> nat option list" where
  "get_flat_deps s entity = walk_dependencies s [] (dependencies_of s entity)"

definition get_entity_deps :: "entity \<Rightarrow> scene \<Rightarrow> entity list" where
  "get_entity_deps entity s =
     filter (\<lambda>scene_entity. Some (slvs_index entity) \<in> set (get_flat_deps s scene_entity))
       (entities s)"

definition is_entity_referenced :: "entity \<Rightarrow> scene \<Rightarrow> bool" where
  "is_entity_referenced entity s = (get_entity_deps entity s \<noteq> [])"

section \<open>Deleting entities\<close>

text \<open>
  Modelled from the spec: \<^verbatim>\<open>entities()\<close> and \<^verbatim>\<open>dependencies()\<close> of a constraint list
  the entities it references.
\<close>

definition constr_entities :: "constr \<Rightarrow> nat list" where
  "constr_entities c = entity_is c"

definition constr_dependencies :: "constr \<Rightarrow> nat list" where
  "constr_dependencies c = constr_entities c"

text \<open>
  \<^verbatim>\<open>get_constraint_local_indices\<close>: for each collection (its position \<open>k\<close> in
  \<^verbatim>\<open>get_lists()\<close>) the local indices, ascending, of the constraints that depend on the
  entity; \<^verbatim>\<open>constraints.get_index(c)\<close> of an item of the collection is its position.
\<close>

definition get_constraint_local_indices :: "entity \<Rightarrow> scene \<Rightarrow> (nat \<times> nat list) list" where
  "get_constraint_local_indices entity s =
     map (\<lambda>k. let data_coll = snd (constraints s ! k)
              in (k, filter (\<lambda>i. slvs_index entity \<in> set (constr_dependencies (data_coll ! i)))
                       [0..<length data_coll]))
       [0..<length (constraints s)]"

text \<open>
  The inner loop of \<^verbatim>\<open>delete\<close>: \<^verbatim>\<open>data_coll[i]\<close> is evaluated for the log message
  before the removal and raises \<^verbatim>\<open>IndexError\<close> outside the collection.
\<close>

fun remove_indices :: "nat \<Rightarrow> nat list \<Rightarrow> scene \<Rightarrow> error + scene" where
  "remove_indices k [] s = Inr s"
| "remove_indices k (i # indices) s =
     (if i < length (snd (constraints s ! k))
      then remove_indices k indices (coll_remove k i s)
      else Inl IndexError)"

fun delete_constraints :: "(nat \<times> nat list) list \<Rightarrow> scene \<Rightarrow> error + scene" where
  "delete_constraints [] s = Inr s"
| "delete_constraints ((k, indices) # rest) s =
     (if indices = [] then delete_constraints rest s
      else case remove_indices k indices s of
             Inl e \<Rightarrow> Inl e
           | Inr s' \<Rightarrow> delete_constraints rest s')"

definition set_selected :: "nat \<Rightarrow> bool \<Rightarrow> scene \<Rightarrow> scene" where
  "set_selected i b s =
     s\<lparr>entities := map (\<lambda>e. if slvs_index e = i then e\<lparr>selected := b\<rparr> else e) (entities s)\<rparr>"

definition delete :: "entity \<Rightarrow> scene \<Rightarrow> error + scene" where
  "delete entity s =
     (let s1 = set_selected (slvs_index entity) False s
      in case delete_constraints (rev (get_constraint_local_indices entity s1)) s1 of
           Inl e \<Rightarrow> Inl e
         | Inr s2 \<Rightarrow> Inr (entities_remove (slvs_index entity) s2))"

text \<open>
  What an operator returns (\<open>NoResult\<close> is Python's \<^verbatim>\<open>None\<close>) and what it shows to the
  user: the error popup with the dependents, the warning report, the view refresh.
\<close>

datatype op_result = CANCELLED | FINISHED | NoResult

datatype ui_event = MessagePopup nat "nat list" | ReportWarning nat | ViewRefresh

text \<open>
  \<^verbatim>\<open>get_sketch_deps_indicies\<close>: \<^verbatim>\<open>entity.sketch\<close> resolves the field \<^verbatim>\<open>sketch_i\<close>
  in the entity store; on a dead index it is \<^verbatim>\<open>None\<close> and reading its index raises.
\<close>

fun get_sketch_deps_indicies :: "entity \<Rightarrow> scene \<Rightarrow> entity list \<Rightarrow> error + nat list" where
  "get_sketch_deps_indicies sketch s [] = Inr []"
| "get_sketch_deps_indicies sketch s (entity # rest) =
     (case sketch_i entity of
        None \<Rightarrow> get_sketch_deps_indicies sketch s rest
      | Some k \<Rightarrow>
          (case entities_get s (int k) of
             None \<Rightarrow> Inl AttributeError
           | Some sk \<Rightarrow>
               if slvs_index sketch \<noteq> slvs_index sk then get_sketch_deps_indicies sketch s rest
               else (case get_sketch_deps_indicies sketch s rest of
                       Inl e \<Rightarrow> Inl e
                     | Inr deps \<Rightarrow> Inr (slvs_index entity # deps))))"

fun delete_all :: "nat list \<Rightarrow> scene \<Rightarrow> error + scene" where
  "delete_all [] s = Inr s"
| "delete_all (i # indices) s =
     (case entities_get s (int i) of
        None \<Rightarrow> Inl AttributeError
      | Some e \<Rightarrow> (case delete e s of Inl err \<Rightarrow> Inl err | Inr s' \<Rightarrow> delete_all indices s'))"

text \<open>
  Modelled from the spec: \<^verbatim>\<open>activate_sketch(context, -1, operator)\<close> detaches the active
  sketch; \<^verbatim>\<open>remove_objects()\<close> releases objects that are not part of the entity and
  constraint stores.
\<close>

definition activate_sketch :: "int \<Rightarrow> scene \<Rightarrow> scene" where
  "activate_sketch i s = s\<lparr>active_sketch_i := i\<rparr>"

text \<open>\<^verbatim>\<open>View3D_OT_slvs_delete_entity.main\<close>.\<close>

definition main :: "scene \<Rightarrow> int \<Rightarrow> error + op_result \<times> scene \<times> ui_event list" where
  "main s index' =
     (case entities_get s index' of
        None \<Rightarrow> Inr (CANCELLED, s, [])
      | Some entity \<Rightarrow>
          if kind entity = Sketch then
            (let s1 = (if active_sketch_i s \<noteq> -1 then activate_sketch (-1) s else s)
             in case get_sketch_deps_indicies entity s1 (entities s1) of
                  Inl e \<Rightarrow> Inl e
                | Inr deps \<Rightarrow>
                    (case delete_all (rev deps) s1 of
                       Inl e \<Rightarrow> Inl e
                     | Inr s2 \<Rightarrow>
                         (case delete entity s2 of
                            Inl e \<Rightarrow> Inl e
                          | Inr s3 \<Rightarrow> Inr (NoResult, s3, []))))
          else if is_entity_referenced entity s then
            Inr (CANCELLED, s,
                 [MessagePopup (slvs_index entity) (map slvs_index (get_entity_deps entity s)),
                  ReportWarning (slvs_index entity)])
          else
            (case delete entity s of
               Inl e \<Rightarrow> Inl e
             | Inr s' \<Rightarrow> Inr (NoResult, s', [])))"

text \<open>
  Modelled from the spec: \<^verbatim>\<open>selected_entities\<close> are the entities of the store whose
  selection flag is set.
\<close>

definition selected_entities :: "scene \<Rightarrow> entity list" where
  "selected_entities s = filter selected (entities s)"

text \<open>
  The batch loop of \<^verbatim>\<open>execute\<close>. A selected entity is live; the lookup of a dead index
  gives \<^verbatim>\<open>None\<close>, on which \<^verbatim>\<open>delete\<close> raises.
\<close>

fun batch_delete :: "nat list \<Rightarrow> scene \<Rightarrow> error + scene" where
  "batch_delete [] s = Inr s"
| "batch_delete (i # indices) s =
     (case entities_get s (int i) of
        None \<Rightarrow> Inl AttributeError
      | Some e \<Rightarrow>
          if is_entity_referenced e s then batch_delete indices s
          else (case delete e s of Inl err \<Rightarrow> Inl err | Inr s' \<Rightarrow> batch_delete indices s'))"

text \<open>\<^verbatim>\<open>View3D_OT_slvs_delete_entity.execute\<close>; the result of \<^verbatim>\<open>main\<close> is dropped.\<close>

definition execute :: "scene \<Rightarrow> int \<Rightarrow> error + op_result \<times> scene \<times> ui_event list" where
  "execute s index' =
     (let selected' = selected_entities s in
      case (if index' \<noteq> -1 then map_sum id snd (main s index')
            else if length selected' = 1
            then map_sum id snd (main s (int (slvs_index (selected' ! 0))))
            else map_sum id (\<lambda>s'. (s', [])) (batch_delete (rev (sort (map slvs_index selected'))) s))
      of Inl e \<Rightarrow> Inl e
       | Inr (s', events) \<Rightarrow> Inr (FINISHED, s', events @ [ViewRefresh]))"

section \<open>Materializing the point of an intersection\<close>

text \<open>
  Modelled from the spec: \<^verbatim>\<open>is_point()\<close> and \<^verbatim>\<open>is_closed()\<close> are class tests, and a
  constraint object is found in the scene by its identity.
\<close>

definition is_point :: "entity \<Rightarrow> bool" where
  "is_point e = (kind e = Point2D)"

definition is_closed :: "entity \<Rightarrow> bool" where
  "is_closed e = (kind e = Circle)"

definition constraints_get :: "scene \<Rightarrow> nat \<Rightarrow> constr option" where
  "constraints_get s i = find (\<lambda>c. cid c = i) (constraints_all s)"

text \<open>
  \<^verbatim>\<open>Intersection.get_point\<close>. A constraint that is no longer in the scene is a dead
  reference; \<^verbatim>\<open>entities()[0]\<close> raises on a constraint without entities.
\<close>

definition get_point :: "Intersection \<Rightarrow> scene \<Rightarrow> error + nat \<times> Intersection \<times> scene" where
  "get_point intr s =
     (case element intr of
        EntityElem e \<Rightarrow>
          if is_point e then Inr (slvs_index e, intr, s)
          else
            (case point_cache intr of
               None \<Rightarrow>
                 (let sketch = active_sketch s;
                      (p, s1) = add_point_2d (co intr) sketch s;
                      (c, s2) = add_coincident p (slvs_index e) s1
                  in Inr (p, intr\<lparr>point_cache := Some p\<rparr>, s2))
             | Some p \<Rightarrow> Inr (p, intr, s))
      | ConstraintElem c \<Rightarrow>
          (case constraints_get s (cid c) of
             None \<Rightarrow> Inl ReferenceError
           | Some c' \<Rightarrow>
               (case constr_entities c' of
                  [] \<Rightarrow> Inl IndexError
                | p # _ \<Rightarrow> Inr (p, intr, s))))"

text \<open>\<^verbatim>\<open>get_point\<close> on the intersection object \<open>r\<close> of a \<^verbatim>\<open>TrimSegment\<close>.\<close>

definition intr_get_point :: "nat \<Rightarrow> TrimSegment \<Rightarrow> scene \<Rightarrow> error + nat \<times> TrimSegment \<times> scene" where
  "intr_get_point r ts s =
     (case get_point (intersections ts ! r) s of
        Inl e \<Rightarrow> Inl e
      | Inr (p, intr, s') \<Rightarrow> Inr (p, ts\<lparr>intersections := (intersections ts)[r := intr]\<rparr>, s'))"

fun ensure_loop :: "nat list \<Rightarrow> TrimSegment \<Rightarrow> scene \<Rightarrow> error + TrimSegment \<times> scene" where
  "ensure_loop [] ts s = Inr (ts, s)"
| "ensure_loop (r # rs) ts s =
     (case intr_get_point r ts s of
        Inl e \<Rightarrow> Inl e
      | Inr (p, ts', s') \<Rightarrow> ensure_loop rs ts' s')"

definition ensure_points ::
  "(entity \<Rightarrow> coord \<Rightarrow> coord \<Rightarrow> 'k::linorder) \<Rightarrow> TrimSegment \<Rightarrow> scene \<Rightarrow> error + TrimSegment \<times> scene" where
  "ensure_points das ts s =
     (case relevant_intersections das ts of
        Inl e \<Rightarrow> Inl e
      | Inr (relevant, ts') \<Rightarrow> ensure_loop relevant ts' s)"

section \<open>Replacing the segment\<close>

text \<open>
  Modelled from the spec: \<^verbatim>\<open>segment.replace(context, p1, p2, use_self)\<close> of the segment
  classes. With \<open>use_self\<close> the segment entity itself is mutated to span the two points and
  keeps its index; otherwise a new segment entity is created (an arc for a circle) under a
  fresh index. The current attributes of the segment are read from the scene.
\<close>

definition segment_replace :: "entity \<Rightarrow> nat \<Rightarrow> nat \<Rightarrow> bool \<Rightarrow> scene \<Rightarrow> error + nat \<times> scene" where
  "segment_replace seg p1 p2 use_self s =
     (case entities_get s (int (slvs_index seg)) of
        None \<Rightarrow> Inl ReferenceError
      | Some cur \<Rightarrow>
          (let deps = [p1, p2] @ filter (\<lambda>d. d \<notin> set (connection_is cur)) (dependency_is cur)
           in if use_self
              then Inr (slvs_index seg,
                        s\<lparr>entities :=
                            map (\<lambda>e. if slvs_index e = slvs_index seg
                                      then e\<lparr>dependency_is := deps, connection_is := [p1, p2]\<rparr>
                                      else e) (entities s)\<rparr>)
              else Inr (fresh_index s,
                        s\<lparr>entities := entities s @
                            [\<lparr>slvs_index = fresh_index s,
                              kind = (if kind cur = Circle then Arc else kind cur),
                              location = location cur, dependency_is = deps,
                              connection_is = [p1, p2], sketch_i = sketch_i cur,
                              selected = False\<rparr>]\<rparr>)))"

text \<open>
  Modelled from the spec: \<^verbatim>\<open>c.copy(context, ents)\<close> creates a constraint of the type of
  \<open>c\<close> on the given entities; \<^verbatim>\<open>setattr(c, "entity{n}_i", v)\<close> writes one reference field
  of the constraint object \<open>c\<close>.
\<close>

definition constr_copy :: "constr \<Rightarrow> nat list \<Rightarrow> scene \<Rightarrow> nat \<times> scene" where
  "constr_copy c ents s = new_constraint (type c) ents s"

definition set_entity_i :: "constr \<Rightarrow> nat \<Rightarrow> nat \<Rightarrow> scene \<Rightarrow> scene" where
  "set_entity_i c i v s =
     s\<lparr>constraints :=
         map (\<lambda>(t, data_coll).
                (t, map (\<lambda>c'. if cid c' = cid c then c'\<lparr>entity_is := (entity_is c')[i := v]\<rparr> else c')
                      data_coll))
           (constraints s)\<rparr>"

text \<open>Python's \<^verbatim>\<open>list.index\<close>; \<open>None\<close> is its \<^verbatim>\<open>ValueError\<close>.\<close>

fun list_index :: "'a list \<Rightarrow> 'a \<Rightarrow> nat option" where
  "list_index [] x = None"
| "list_index (y # ys) x = (if y = x then Some 0 else map_option Suc (list_index ys x))"

text \<open>
  The loop over \<^verbatim>\<open>constrs.items()\<close> for the pair number \<open>index'\<close>. The dictionary
  \<^verbatim>\<open>constrs\<close> is a list of the constraint objects with their entity lists; the
  assignment \<^verbatim>\<open>ents[i] = new_segment\<close> changes the list kept in the dictionary.
  Besides the dictionary and the scene, the loop returns the calls of \<^verbatim>\<open>setattr\<close> it
  made, in order: \<open>(c, i, v)\<close> is \<^verbatim>\<open>setattr(c, "entity{i + 1}_i", v)\<close>.
\<close>

type_synonym field_write = "constr \<times> nat \<times> nat"

fun copy_constraints ::
  "nat \<Rightarrow> nat \<Rightarrow> nat \<Rightarrow> (constr \<times> nat list) list \<Rightarrow> scene
     \<Rightarrow> error + (constr \<times> nat list) list \<times> scene \<times> field_write list" where
  "copy_constraints index' seg new_segment [] s = Inr ([], s, [])"
| "copy_constraints index' seg new_segment ((c, ents) # rest) s =
     (case list_index ents seg of
        None \<Rightarrow> Inl ValueError
      | Some i \<Rightarrow>
          if index' \<noteq> 0 then
            if type c \<in> {RATIO, COINCIDENT, MIDPOINT, TANGENT}
            then (case copy_constraints index' seg new_segment rest s of
                    Inl e \<Rightarrow> Inl e
                  | Inr (rest', s', writes) \<Rightarrow> Inr ((c, ents) # rest', s', writes))
            else
              (let ents' = ents[i := new_segment];
                   (new_constr, s1) = constr_copy c ents' s
               in case copy_constraints index' seg new_segment rest s1 of
                    Inl e \<Rightarrow> Inl e
                  | Inr (rest', s', writes) \<Rightarrow> Inr ((c, ents') # rest', s', writes))
          else
            (case copy_constraints index' seg new_segment rest (set_entity_i c i new_segment s) of
               Inl e \<Rightarrow> Inl e
             | Inr (rest', s', writes) \<Rightarrow>
                 Inr ((c, ents) # rest', s', (c, i, new_segment) # writes)))"

text \<open>
  The body of the loop of \<^verbatim>\<open>replace\<close> for the pair \<open>(r1, r2)\<close> with number \<open>index'\<close>.
  The test \<^verbatim>\<open>if not intr_1\<close> never holds: an \<^verbatim>\<open>Intersection\<close> object is truthy.
  The last component of the result lists the calls of \<^verbatim>\<open>setattr\<close> of this pass; a pass
  that reuses the segment leaves the loop body at \<^verbatim>\<open>continue\<close> and made none.
\<close>

definition replace_step ::
  "nat \<Rightarrow> nat \<times> nat \<Rightarrow> (constr \<times> nat list) list \<Rightarrow> TrimSegment \<Rightarrow> scene
     \<Rightarrow> error + (constr \<times> nat list) list \<times> TrimSegment \<times> scene \<times> field_write list" where
  "replace_step index' intrs constrs ts s =
     (let reuse = (index' = 0 \<and> kind (segment ts) \<noteq> Circle);
          (intr_1, intr_2) = intrs
      in case intr_get_point intr_1 ts s of
           Inl e \<Rightarrow> Inl e
         | Inr (p1, ts1, s1) \<Rightarrow>
             (case intr_get_point intr_2 ts1 s1 of
                Inl e \<Rightarrow> Inl e
              | Inr (p2, ts2, s2) \<Rightarrow>
                  (case segment_replace (segment ts2) p1 p2 reuse s2 of
                     Inl e \<Rightarrow> Inl e
                   | Inr (new_segment, s3) \<Rightarrow>
                       if reuse then Inr (constrs, ts2\<lparr>reuse_segment := True\<rparr>, s3, [])
                       else
                         (case copy_constraints index' (slvs_index (segment ts2)) new_segment
                                 constrs s3 of
                            Inl e \<Rightarrow> Inl e
                          | Inr (constrs', s4, writes) \<Rightarrow> Inr (constrs', ts2, s4, writes)))))"

fun replace_loop ::
  "nat \<Rightarrow> (nat \<times> nat) list \<Rightarrow> (constr \<times> nat list) list \<Rightarrow> TrimSegment \<Rightarrow> scene
     \<Rightarrow> error + (constr \<times> nat list) list \<times> TrimSegment \<times> scene" where
  "replace_loop index' [] constrs ts s = Inr (constrs, ts, s)"
| "replace_loop index' (intrs # rest) constrs ts s =
     (case replace_step index' intrs constrs ts s of
        Inl e \<Rightarrow> Inl e
      | Inr (constrs', ts', s', writes) \<Rightarrow> replace_loop (Suc index') rest constrs' ts' s')"

text \<open>
  Modelled from the spec: \<^verbatim>\<open>constraints.get_index(c)\<close> is the local index of \<open>c\<close> in
  its collection; the collection is given with it, as its position in \<^verbatim>\<open>get_lists()\<close>.
\<close>

fun get_index_from :: "nat \<Rightarrow> (ctype \<times> constr list) list \<Rightarrow> constr \<Rightarrow> (nat \<times> nat) option" where
  "get_index_from k [] c = None"
| "get_index_from k ((t, data_coll) # rest) c =
     (case list_index (map cid data_coll) (cid c) of
        Some i \<Rightarrow> Some (k, i)
      | None \<Rightarrow> get_index_from (Suc k) rest c)"

definition get_index :: "scene \<Rightarrow> constr \<Rightarrow> (nat \<times> nat) option" where
  "get_index s c = get_index_from 0 (constraints s) c"

text \<open>
  The loop over the obsolete intersections. Modelled from the spec: the operator
  \<^verbatim>\<open>slvs_delete_constraint\<close> removes the constraint at the local index of its collection.
  \<^verbatim>\<open>slvs_delete_entity\<close> is \<open>execute\<close> above.
\<close>

fun remove_obsolete :: "nat list \<Rightarrow> TrimSegment \<Rightarrow> scene \<Rightarrow> error + scene" where
  "remove_obsolete [] ts s = Inr s"
| "remove_obsolete (r # rs) ts s =
     (case element (intersections ts ! r) of
        ConstraintElem c \<Rightarrow>
          (case get_index s c of
             None \<Rightarrow> Inl ValueError
           | Some (k, i) \<Rightarrow> remove_obsolete rs ts (coll_remove k i s))
      | EntityElem e \<Rightarrow>
          (case execute s (int (slvs_index e)) of
             Inl err \<Rightarrow> Inl err
           | Inr (res, s', events) \<Rightarrow> remove_obsolete rs ts s'))"

text \<open>
  \<^verbatim>\<open>TrimSegment.replace\<close>. The pairs are \<^verbatim>\<open>relevant[i * 2 : i * 2 + 2]\<close> for \<open>i\<close> below
  \<^verbatim>\<open>len(relevant) // 2\<close>, each of two elements.
\<close>

definition replace ::
  "(entity \<Rightarrow> coord \<Rightarrow> coord \<Rightarrow> 'k::linorder) \<Rightarrow> TrimSegment \<Rightarrow> scene \<Rightarrow> error + TrimSegment \<times> scene" where
  "replace das ts s =
     (case relevant_intersections das ts of
        Inl e \<Rightarrow> Inl e
      | Inr (relevant, ts1) \<Rightarrow>
          (let constrs = map (\<lambda>c. (c, constr_entities c))
                           (filter (\<lambda>c. slvs_index (segment ts1) \<in> set (constr_entities c))
                              (constraints_all s))
           in case ensure_points das ts1 s of
                Inl e \<Rightarrow> Inl e
              | Inr (ts2, s2) \<Rightarrow>
                  (let segment_count = length relevant div 2;
                       pairs = map (\<lambda>i. (relevant ! (i * 2), relevant ! (i * 2 + 1)))
                                 [0..<segment_count]
                   in case replace_loop 0 pairs constrs ts2 s2 of
                        Inl e \<Rightarrow> Inl e
                      | Inr (constrs', ts3, s3) \<Rightarrow>
                          (case remove_obsolete (obsolete_intersections ts3) ts3 s3 of
                             Inl e \<Rightarrow> Inl e
                           | Inr s4 \<Rightarrow>
                               Inr (ts3,
                                    if \<not> reuse_segment ts3
                                    then entities_remove (slvs_index (segment ts3)) s4
                                    else s4)))))"

section \<open>The trim operator\<close>

text \<open>
  Modelled from the spec: \<^verbatim>\<open>connection_points()\<close> resolves the endpoints of a segment
  in the entity store (a dead endpoint is \<^verbatim>\<open>None\<close>), \<^verbatim>\<open>sketch_entities\<close> are the
  entities that belong to the sketch, the segment classes are lines, arcs and circles, and
  \<^verbatim>\<open>constraints.coincident\<close> and \<^verbatim>\<open>constraints.midpoint\<close> are the collections of
  these types. The geometric
  query \<^verbatim>\<open>segment.intersect(e)\<close> is the parameter \<open>intersect\<close>.
\<close>

definition segment_connection_points :: "scene \<Rightarrow> entity \<Rightarrow> entity option list" where
  "segment_connection_points s seg = map (\<lambda>i. entities_get s (int i)) (connection_is seg)"

definition sketch_entities :: "nat \<Rightarrow> scene \<Rightarrow> entity list" where
  "sketch_entities sketch s = filter (\<lambda>e. sketch_i e = Some sketch) (entities s)"

definition is_segment :: "entity \<Rightarrow> bool" where
  "is_segment e = (kind e \<in> {Line2D, Arc, Circle})"

definition collection :: "ctype \<Rightarrow> scene \<Rightarrow> constr list" where
  "collection t s = concat (map snd (filter (\<lambda>(k, data_coll). k = t) (constraints s)))"

text \<open>The first loop of \<^verbatim>\<open>fini\<close>: the crossings of the segment with the other segments.\<close>

definition add_crossings ::
  "(entity \<Rightarrow> entity \<Rightarrow> coord list) \<Rightarrow> entity \<Rightarrow> entity list \<Rightarrow> TrimSegment \<Rightarrow> TrimSegment" where
  "add_crossings intersect seg es trim =
     fold (\<lambda>e trim.
             if \<not> is_segment e then trim
             else if slvs_index e = slvs_index seg then trim
             else fold (\<lambda>c trim. snd (add (EntityElem e) c trim)) (intersect seg e) trim)
       es trim"

text \<open>The second loop: the points tied to the segment by a coincident or midpoint constraint.\<close>

fun add_constrained :: "scene \<Rightarrow> entity \<Rightarrow> constr list \<Rightarrow> TrimSegment \<Rightarrow> error + TrimSegment" where
  "add_constrained s seg [] trim = Inr trim"
| "add_constrained s seg (c # cs) trim =
     (let ents = constr_entities c
      in if slvs_index seg \<notin> set ents then add_constrained s seg cs trim
         else (case ents of
                 [] \<Rightarrow> Inl IndexError
               | i # _ \<Rightarrow>
                   (case entities_get s (int i) of
                      None \<Rightarrow> Inl AttributeError
                    | Some p \<Rightarrow>
                        add_constrained s seg cs (snd (add (ConstraintElem c) (location p) trim)))))"

text \<open>
  The part of \<^verbatim>\<open>View3D_OT_slvs_trim.fini\<close> that builds the \<^verbatim>\<open>TrimSegment\<close>: the
  constructor and the two loops.
\<close>

definition collect_intersections ::
  "(entity \<Rightarrow> entity \<Rightarrow> coord list) \<Rightarrow> entity \<Rightarrow> coord \<Rightarrow> scene \<Rightarrow> error + TrimSegment" where
  "collect_intersections intersect seg mp s =
     (case new_TrimSegment seg (is_closed seg) (segment_connection_points s seg) mp of
        Inl e \<Rightarrow> Inl e
      | Inr trim \<Rightarrow>
          (case active_sketch s of
             None \<Rightarrow> Inl AttributeError
           | Some sketch \<Rightarrow>
               add_constrained s seg (collection COINCIDENT s @ collection MIDPOINT s)
                 (add_crossings intersect seg (sketch_entities sketch s) trim)))"

text \<open>
  \<^verbatim>\<open>View3D_OT_slvs_trim.fini\<close>; what it returns (\<^verbatim>\<open>False\<close> or \<^verbatim>\<open>None\<close>) is not
  used, the result here is the scene it leaves.
\<close>

definition fini ::
  "(entity \<Rightarrow> coord \<Rightarrow> coord \<Rightarrow> 'k::linorder) \<Rightarrow> (entity \<Rightarrow> entity \<Rightarrow> coord list)
     \<Rightarrow> entity \<Rightarrow> coord option \<Rightarrow> bool \<Rightarrow> scene \<Rightarrow> error + scene" where
  "fini das intersect seg mouse_pos succeede s =
     (if \<not> succeede then Inr s
      else case mouse_pos of
        None \<Rightarrow> Inr s
      | Some mp \<Rightarrow>
          (case collect_intersections intersect seg mp s of
             Inl e \<Rightarrow> Inl e
           | Inr trim \<Rightarrow>
               (case check das trim of
                  Inl e \<Rightarrow> Inl e
                | Inr (ok, trim') \<Rightarrow>
                    if \<not> ok then Inr s
                    else map_sum id snd (replace das trim' s))))"

section \<open>Adding a coincident constraint\<close>







section \<open>Notions for stating the properties\<close>

text \<open>
  The caller populates a \<^verbatim>\<open>TrimSegment\<close> by calls of \<^verbatim>\<open>add\<close>; \<open>add_all\<close> is a
  sequence of such calls.
\<close>

fun add_all :: "(elem \<times> coord) list \<Rightarrow> TrimSegment \<Rightarrow> TrimSegment" where
  "add_all [] ts = ts"
| "add_all ((e, c) # rest) ts = add_all rest (snd (add e c ts))"

definition endpoints_are_entities :: "TrimSegment \<Rightarrow> bool" where
  "endpoints_are_entities ts =
     list_all (\<lambda>intr. is_endpoint intr \<longrightarrow> is_entity intr) (intersections ts)"

text \<open>
  The classification of \<^verbatim>\<open>relevant_intersections\<close> in the words of the specification:
  an endpoint is relevant unless it is one of the closest, any other intersection is
  relevant if it is one of the closest; the closest endpoints and the closest
  constraint-derived intersections are obsolete.
\<close>

definition is_relevant :: "int \<times> int \<Rightarrow> Intersection list \<Rightarrow> nat \<Rightarrow> bool" where
  "is_relevant closest xs r =
     (if is_endpoint (xs ! r) then \<not> in_closest (index (xs ! r)) closest
      else in_closest (index (xs ! r)) closest)"

definition is_obsolete :: "int \<times> int \<Rightarrow> Intersection list \<Rightarrow> nat \<Rightarrow> bool" where
  "is_obsolete closest xs r =
     (in_closest (index (xs ! r)) closest \<and> (is_endpoint (xs ! r) \<or> is_constraint (xs ! r)))"

text \<open>
  The point of an intersection is materialized in a scene when \<^verbatim>\<open>get_point\<close> returns
  without changing the intersection or the scene.
\<close>

definition materialized :: "Intersection \<Rightarrow> scene \<Rightarrow> bool" where
  "materialized intr s =
     (case get_point intr s of Inl e \<Rightarrow> False | Inr (p, intr', s') \<Rightarrow> intr' = intr \<and> s' = s)"

text \<open>
  An index is not a sketch index of a scene when no entity stored under it is a sketch. The
  cleanup at the end of \<^verbatim>\<open>replace\<close> spares the entity \<open>j\<close> at an obsolete element that is a
  constraint, or that is an entity other than \<open>j\<close> whose index is not a sketch index:
  deleting a constraint touches no entity and deleting an entity removes that entity alone,
  while deleting a sketch removes the entities of the sketch with it.
\<close>

definition not_sketch_index :: "scene \<Rightarrow> nat \<Rightarrow> bool" where
  "not_sketch_index s i = list_all (\<lambda>x. slvs_index x = i \<longrightarrow> kind x \<noteq> Sketch) (entities s)"

definition cleanup_spares :: "nat \<Rightarrow> scene \<Rightarrow> elem \<Rightarrow> bool" where
  "cleanup_spares j s el =
     (case el of
        ConstraintElem c \<Rightarrow> True
      | EntityElem e \<Rightarrow> slvs_index e \<noteq> j \<and> not_sketch_index s (slvs_index e))"

text \<open>
  A scene extends another when its entity store is the store of the other followed by
  entities that are not sketches.
\<close>

definition extends :: "scene \<Rightarrow> scene \<Rightarrow> bool" where
  "extends s s' =
     (\<exists>extra. entities s' = entities s @ extra \<and> list_all (\<lambda>x. kind x \<noteq> Sketch) extra)"

section \<open>Example scenes\<close>

text \<open>
  A sketch with the line 3 from \<open>(0, 0)\<close> to \<open>(10, 0)\<close>, crossed by the line 6 at
  \<open>(3, 0)\<close> and by the line 9 at \<open>(7, 0)\<close>, and a horizontal constraint on the line 3.
  The ordering key \<open>ex_das\<close> runs from the pick position to the end of the line and on
  from its start.
\<close>

definition ex_sketch :: entity where
  "ex_sketch = \<lparr>slvs_index = 0, kind = Sketch, location = (0, 0), dependency_is = [],
                connection_is = [], sketch_i = None, selected = False\<rparr>"

definition ex_point :: "nat \<Rightarrow> coord \<Rightarrow> entity" where
  "ex_point i c = \<lparr>slvs_index = i, kind = Point2D, location = c, dependency_is = [0],
                   connection_is = [], sketch_i = Some 0, selected = False\<rparr>"

definition ex_segment :: "nat \<Rightarrow> entity_kind \<Rightarrow> nat list \<Rightarrow> nat list \<Rightarrow> entity" where
  "ex_segment i k deps ends =
     \<lparr>slvs_index = i, kind = k, location = (0, 0), dependency_is = deps,
      connection_is = ends, sketch_i = Some 0, selected = False\<rparr>"

definition ex_line :: entity where
  "ex_line = ex_segment 3 Line2D [1, 2, 0] [1, 2]"

definition ex_trim_scene :: scene where
  "ex_trim_scene =
     \<lparr>entities = [ex_sketch, ex_point 1 (0, 0), ex_point 2 (10, 0), ex_line,
                  ex_point 4 (3, -5), ex_point 5 (3, 5), ex_segment 6 Line2D [4, 5, 0] [4, 5],
                  ex_point 7 (7, -5), ex_point 8 (7, 5), ex_segment 9 Line2D [7, 8, 0] [7, 8]],
      constraints = [(COINCIDENT, []),
                     (HORIZONTAL, [\<lparr>cid = 0, type = HORIZONTAL, entity_is = [3]\<rparr>])],
      active_sketch_i = 0\<rparr>"

definition ex_das :: "entity \<Rightarrow> coord \<Rightarrow> coord \<Rightarrow> int" where
  "ex_das seg p c = (fst c - fst p) mod 20"

definition ex_intersect :: "entity \<Rightarrow> entity \<Rightarrow> coord list" where
  "ex_intersect seg e =
     (if slvs_index e = 6 then [(3, 0)] else if slvs_index e = 9 then [(7, 0)] else [])"

definition no_intersect :: "entity \<Rightarrow> entity \<Rightarrow> coord list" where
  "no_intersect seg e = []"

text \<open>The \<^verbatim>\<open>TrimSegment\<close> of the line 3 as its constructor leaves it.\<close>

definition ex_line_trim :: TrimSegment where
  "ex_line_trim =
     \<lparr>segment = ex_line, pos = (5, 0),
      intersections =
        [\<lparr>element = EntityElem (ex_point 1 (0, 0)), co = (0, 0), index = -1,
          is_endpoint_flag = True, point_cache = None\<rparr>,
         \<lparr>element = EntityElem (ex_point 2 (10, 0)), co = (10, 0), index = -1,
          is_endpoint_flag = True, point_cache = None\<rparr>],
      is_closed_flag = False,
      connection_points = [Some (ex_point 1 (0, 0)), Some (ex_point 2 (10, 0))],
      obsolete_intersections = [], reuse_segment = False\<rparr>"

text \<open>A sketch that holds nothing but a circle around the point 1.\<close>

definition ex_circle :: entity where
  "ex_circle = ex_segment 2 Circle [1, 0] []"

definition ex_circle_scene :: scene where
  "ex_circle_scene =
     \<lparr>entities = [ex_sketch, ex_point 1 (0, 0), ex_circle],
      constraints = [(COINCIDENT, []), (MIDPOINT, [])],
      active_sketch_i = 0\<rparr>"

definition ex_circle_trim :: TrimSegment where
  "ex_circle_trim =
     \<lparr>segment = ex_circle, pos = (5, 0), intersections = [], is_closed_flag = True,
      connection_points = [], obsolete_intersections = [], reuse_segment = False\<rparr>"

text \<open>
  Three points and the line 3 between the points 1 and 2; the point 4 is free. The distance
  constraints tie 4 to 1, 4 to 2 and 1 to 2.
\<close>

definition ex_points_scene :: scene where
  "ex_points_scene =
     \<lparr>entities = [ex_sketch, ex_point 1 (0, 0), ex_point 2 (10, 0), ex_line, ex_point 4 (3, 5)],
      constraints =
        [(COINCIDENT, []),
         (DISTANCE, [\<lparr>cid = 0, type = DISTANCE, entity_is = [4, 1]\<rparr>,
                     \<lparr>cid = 1, type = DISTANCE, entity_is = [4, 2]\<rparr>,
                     \<lparr>cid = 2, type = DISTANCE, entity_is = [1, 2]\<rparr>])],
      active_sketch_i = 0\<rparr>"

text \<open>The \<^verbatim>\<open>TrimSegment\<close> of the line 3 after \<^verbatim>\<open>check\<close>, when nothing crosses the line.\<close>

definition ex_line_trim_checked :: TrimSegment where
  "ex_line_trim_checked =
     ex_line_trim\<lparr>intersections :=
        [\<lparr>element = EntityElem (ex_point 1 (0, 0)), co = (0, 0), index = 1,
          is_endpoint_flag = True, point_cache = None\<rparr>,
         \<lparr>element = EntityElem (ex_point 2 (10, 0)), co = (10, 0), index = 0,
          is_endpoint_flag = True, point_cache = None\<rparr>],
      obsolete_intersections := [1, 0]\<rparr>"

text \<open>The crossing of the line 3 with the line 6, as an intersection.\<close>

definition ex_crossing :: Intersection where
  "ex_crossing = \<lparr>element = EntityElem (ex_segment 6 Line2D [4, 5, 0] [4, 5]), co = (3, 0),
                   index = 3, is_endpoint_flag = False, point_cache = None\<rparr>"

text \<open>The scene after the point of that crossing has been created.\<close>

definition ex_trim_scene_with_point :: scene where
  "ex_trim_scene_with_point =
     ex_trim_scene\<lparr>entities := entities ex_trim_scene @ [ex_point 10 (3, 0)],
       constraints := [(COINCIDENT, [\<lparr>cid = 1, type = COINCIDENT, entity_is = [10, 6]\<rparr>]),
                       (HORIZONTAL, [\<lparr>cid = 0, type = HORIZONTAL, entity_is = [3]\<rparr>])]\<rparr>"

text \<open>The scene of the three points after the point 4 has been deleted.\<close>

definition ex_points_scene_after_delete :: scene where
  "ex_points_scene_after_delete =
     \<lparr>entities = [ex_sketch, ex_point 1 (0, 0), ex_point 2 (10, 0), ex_line],
      constraints = [(COINCIDENT, []), (DISTANCE, [\<lparr>cid = 1, type = DISTANCE, entity_is = [4, 2]\<rparr>])],
      active_sketch_i = 0\<rparr>"





text \<open>
  The \<^verbatim>\<open>TrimSegment\<close> of the line 3 with its two crossings, for given values of the
  fields \<^verbatim>\<open>index\<close> and \<^verbatim>\<open>_point\<close> of its four intersections and of the reuse flag.
\<close>

definition ex_crossed_trim :: "int list \<Rightarrow> nat option list \<Rightarrow> bool \<Rightarrow> TrimSegment" where
  "ex_crossed_trim indices points reuse =
     \<lparr>segment = ex_line, pos = (5, 0),
      intersections =
        [\<lparr>element = EntityElem (ex_point 1 (0, 0)), co = (0, 0), index = indices ! 0,
          is_endpoint_flag = True, point_cache = points ! 0\<rparr>,
         \<lparr>element = EntityElem (ex_point 2 (10, 0)), co = (10, 0), index = indices ! 1,
          is_endpoint_flag = True, point_cache = points ! 1\<rparr>,
         \<lparr>element = EntityElem (ex_segment 6 Line2D [4, 5, 0] [4, 5]), co = (3, 0),
          index = indices ! 2, is_endpoint_flag = False, point_cache = points ! 2\<rparr>,
         \<lparr>element = EntityElem (ex_segment 9 Line2D [7, 8, 0] [7, 8]), co = (7, 0),
          index = indices ! 3, is_endpoint_flag = False, point_cache = points ! 3\<rparr>],
      is_closed_flag = False,
      connection_points = [Some (ex_point 1 (0, 0)), Some (ex_point 2 (10, 0))],
      obsolete_intersections = [], reuse_segment = reuse\<rparr>"

text \<open>The scene after the line 3 has been trimmed between its crossings.\<close>

definition ex_trimmed_scene :: scene where
  "ex_trimmed_scene =
     \<lparr>entities = [ex_sketch, ex_point 1 (0, 0), ex_point 2 (10, 0),
                  ex_segment 3 Line2D [10, 2, 0] [10, 2],
                  ex_point 4 (3, -5), ex_point 5 (3, 5), ex_segment 6 Line2D [4, 5, 0] [4, 5],
                  ex_point 7 (7, -5), ex_point 8 (7, 5), ex_segment 9 Line2D [7, 8, 0] [7, 8],
                  ex_point 10 (7, 0), ex_point 11 (3, 0), ex_segment 12 Line2D [1, 11, 0] [1, 11]],
      constraints =
        [(COINCIDENT, [\<lparr>cid = 1, type = COINCIDENT, entity_is = [10, 9]\<rparr>,
                       \<lparr>cid = 2, type = COINCIDENT, entity_is = [11, 6]\<rparr>]),
         (HORIZONTAL, [\<lparr>cid = 0, type = HORIZONTAL, entity_is = [3]\<rparr>,
                       \<lparr>cid = 3, type = HORIZONTAL, entity_is = [12]\<rparr>])],
      active_sketch_i = 0\<rparr>"

text \<open>
  A circle around the point 1, crossed by the line 5 at \<open>(-5, 0)\<close> and \<open>(5, 0)\<close>, with a
  diameter constraint; \<open>ex_circle_das\<close> orders the two crossings from the pick position
  \<open>(0, 5)\<close>.
\<close>

definition ex_circle_crossed_scene :: scene where
  "ex_circle_crossed_scene =
     \<lparr>entities = [ex_sketch, ex_point 1 (0, 0), ex_circle, ex_point 3 (-10, 0), ex_point 4 (10, 0),
                  ex_segment 5 Line2D [3, 4, 0] [3, 4]],
      constraints = [(COINCIDENT, []), (DIAMETER, [\<lparr>cid = 0, type = DIAMETER, entity_is = [2]\<rparr>])],
      active_sketch_i = 0\<rparr>"

definition ex_circle_das :: "entity \<Rightarrow> coord \<Rightarrow> coord \<Rightarrow> int" where
  "ex_circle_das seg p c = (if fst c < 0 then 1 else 3)"

definition ex_circle_intersect :: "entity \<Rightarrow> entity \<Rightarrow> coord list" where
  "ex_circle_intersect seg e = (if slvs_index e = 5 then [(-5, 0), (5, 0)] else [])"

text \<open>The \<^verbatim>\<open>TrimSegment\<close> of that circle, as \<open>ex_crossed_trim\<close> above.\<close>

definition ex_circle_crossed_trim :: "int list \<Rightarrow> nat option list \<Rightarrow> TrimSegment" where
  "ex_circle_crossed_trim indices points =
     \<lparr>segment = ex_circle, pos = (0, 5),
      intersections =
        [\<lparr>element = EntityElem (ex_segment 5 Line2D [3, 4, 0] [3, 4]), co = (-5, 0),
          index = indices ! 0, is_endpoint_flag = False, point_cache = points ! 0\<rparr>,
         \<lparr>element = EntityElem (ex_segment 5 Line2D [3, 4, 0] [3, 4]), co = (5, 0),
          index = indices ! 1, is_endpoint_flag = False, point_cache = points ! 1\<rparr>],
      is_closed_flag = True, connection_points = [],
      obsolete_intersections = [], reuse_segment = False\<rparr>"

text \<open>The scene after the circle has been trimmed.\<close>

definition ex_circle_trimmed_scene :: scene where
  "ex_circle_trimmed_scene =
     \<lparr>entities = [ex_sketch, ex_point 1 (0, 0), ex_point 3 (-10, 0), ex_point 4 (10, 0),
                  ex_segment 5 Line2D [3, 4, 0] [3, 4], ex_point 6 (-5, 0), ex_point 7 (5, 0),
                  ex_segment 8 Arc [6, 7, 1, 0] [6, 7]],
      constraints =
        [(COINCIDENT, [\<lparr>cid = 1, type = COINCIDENT, entity_is = [6, 5]\<rparr>,
                       \<lparr>cid = 2, type = COINCIDENT, entity_is = [7, 5]\<rparr>]),
         (DIAMETER, [\<lparr>cid = 0, type = DIAMETER, entity_is = [8]\<rparr>])],
      active_sketch_i = 0\<rparr>"



text \<open>
  The \<^verbatim>\<open>TrimSegment\<close> of the line 3 picked at \<open>(1, 0)\<close>, between its start and the first
  crossing, with the obsolete intersections given, and the scene after that trim: the line
  runs from the new point 10 at the crossing to the point 2, and the start point 1 is gone.
\<close>

definition ex_near_trim :: "int list \<Rightarrow> nat option list \<Rightarrow> nat list \<Rightarrow> bool \<Rightarrow> TrimSegment" where
  "ex_near_trim indices points obsolete reuse =
     (ex_crossed_trim indices points reuse)\<lparr>pos := (1, 0), obsolete_intersections := obsolete\<rparr>"

definition ex_near_trimmed_scene :: scene where
  "ex_near_trimmed_scene =
     \<lparr>entities = [ex_sketch, ex_point 2 (10, 0), ex_segment 3 Line2D [10, 2, 0] [10, 2],
                  ex_point 4 (3, -5), ex_point 5 (3, 5), ex_segment 6 Line2D [4, 5, 0] [4, 5],
                  ex_point 7 (7, -5), ex_point 8 (7, 5), ex_segment 9 Line2D [7, 8, 0] [7, 8],
                  ex_point 10 (3, 0)],
      constraints =
        [(COINCIDENT, [\<lparr>cid = 1, type = COINCIDENT, entity_is = [10, 6]\<rparr>]),
         (HORIZONTAL, [\<lparr>cid = 0, type = HORIZONTAL, entity_is = [3]\<rparr>])],
      active_sketch_i = 0\<rparr>"

text \<open>
  The scene of the line 3 picked at \<open>(5, 0)\<close> after \<^verbatim>\<open>ensure_points\<close> has created the
  points of the two crossings, and after the pass of the first pair has moved the line 3
  onto the points 10 and 2.
\<close>

definition ex_trim_scene_with_points :: scene where
  "ex_trim_scene_with_points =
     ex_trim_scene\<lparr>entities := entities ex_trim_scene @ [ex_point 10 (7, 0), ex_point 11 (3, 0)],
       constraints := [(COINCIDENT, [\<lparr>cid = 1, type = COINCIDENT, entity_is = [10, 9]\<rparr>,
                                     \<lparr>cid = 2, type = COINCIDENT, entity_is = [11, 6]\<rparr>]),
                       (HORIZONTAL, [\<lparr>cid = 0, type = HORIZONTAL, entity_is = [3]\<rparr>])]\<rparr>"

definition ex_trim_scene_reused :: scene where
  "ex_trim_scene_reused =
     ex_trim_scene_with_points\<lparr>entities :=
       [ex_sketch, ex_point 1 (0, 0), ex_point 2 (10, 0), ex_segment 3 Line2D [10, 2, 0] [10, 2],
        ex_point 4 (3, -5), ex_point 5 (3, 5), ex_segment 6 Line2D [4, 5, 0] [4, 5],
        ex_point 7 (7, -5), ex_point 8 (7, 5), ex_segment 9 Line2D [7, 8, 0] [7, 8],
        ex_point 10 (7, 0), ex_point 11 (3, 0)]\<rparr>"

section \<open>Properties: ordering and classification\<close>

lemma length_assign_indices [simp]: "length (assign_indices rs i xs) = length xs"
  by (induction rs i xs rule: assign_indices.induct) auto

lemma assign_indices_notin:
  "r \<notin> set rs \<Longrightarrow> assign_indices rs i xs ! r = xs ! r"
  by (induction rs i xs rule: assign_indices.induct) auto

lemma assign_indices_index:
  "distinct rs \<Longrightarrow> \<forall>r \<in> set rs. r < length xs \<Longrightarrow> k < length rs \<Longrightarrow>
     index (assign_indices rs i xs ! (rs ! k)) = i + int k"
proof (induction rs i xs arbitrary: k rule: assign_indices.induct)
  case (1 i xs)
  then show ?case by simp
next
  case (2 r rs i xs)
  show ?case
  proof (cases k)
    case 0
    with 2 show ?thesis by (simp add: assign_indices_notin)
  next
    case (Suc j)
    with 2 show ?thesis by simp
  qed
qed

lemma sorted_refs_set [simp]: "set (sorted_refs das ts) = {0..<length (intersections ts)}"
  by (simp add: sorted_refs_def)

lemma sorted_refs_distinct [simp]: "distinct (sorted_refs das ts)"
  by (simp add: sorted_refs_def)

lemma sorted_refs_length [simp]: "length (sorted_refs das ts) = length (intersections ts)"
  by (simp add: sorted_refs_def)

lemma sorted_refs_Nil [simp]: "sorted_refs das ts = [] \<longleftrightarrow> intersections ts = []"
  using sorted_refs_length [of das ts] by (metis length_0_conv)

lemma intersections_mark_obsolete [simp]:
  "intersections (mark_obsolete r ts) = intersections ts"
  by (simp add: mark_obsolete_def)

lemma relevant_step_eq:
  "relevant_step closest r (relevant, ts) =
     (if is_relevant closest (intersections ts) r then relevant @ [r] else relevant,
      if is_obsolete closest (intersections ts) r then mark_obsolete r ts else ts)"
  by (simp add: relevant_step_def Let_def is_relevant_def is_obsolete_def)

lemma fold_relevant_step:
  "fold (relevant_step closest) rs (relevant, ts) =
     (relevant @ filter (is_relevant closest (intersections ts)) rs,
      fold mark_obsolete (filter (is_obsolete closest (intersections ts)) rs) ts)"
proof (induction rs arbitrary: relevant ts)
  case Nil
  then show ?case by simp
next
  case (Cons r rs)
  show ?case
    by (simp only: fold_Cons comp_apply relevant_step_eq Cons) simp
qed

lemma fold_mark_obsolete_set:
  "set (obsolete_intersections (fold mark_obsolete rs ts)) = set (obsolete_intersections ts) \<union> set rs"
  by (induction rs arbitrary: ts) (auto simp: mark_obsolete_def)

lemma fold_mark_obsolete_eq:
  "fold mark_obsolete rs ts =
     ts\<lparr>obsolete_intersections :=
          fold (\<lambda>r ob. if r \<notin> set ob then ob @ [r] else ob) rs (obsolete_intersections ts)\<rparr>"
  by (induction rs arbitrary: ts) (simp_all add: mark_obsolete_def)

text \<open>
  With at least one intersection collected, \<^verbatim>\<open>relevant_intersections\<close> returns: the
  intersection sorted to position \<open>k\<close> has index \<open>k\<close>, the closest are the indices \<open>0\<close> and
  \<open>n - 1\<close>, the relevant list is the ordered list filtered by \<open>is_relevant\<close>, and the
  obsolete ones are added to the obsolete list.
\<close>

lemma sorted_index:
  "k < length (intersections ts) \<Longrightarrow>
     index (assign_indices (sorted_refs das ts) 0 (intersections ts) ! (sorted_refs das ts ! k))
       = int k"
  using assign_indices_index [of "sorted_refs das ts" "intersections ts" k 0] by simp

lemma relevant_intersections_nonempty:
  assumes "intersections ts \<noteq> []"
  shows "relevant_intersections das ts =
           Inr (filter (is_relevant (0, int (length (intersections ts)) - 1)
                          (assign_indices (sorted_refs das ts) 0 (intersections ts)))
                  (sorted_refs das ts),
                fold mark_obsolete
                  (filter (is_obsolete (0, int (length (intersections ts)) - 1)
                             (assign_indices (sorted_refs das ts) 0 (intersections ts)))
                     (sorted_refs das ts))
                  (ts\<lparr>intersections := assign_indices (sorted_refs das ts) 0 (intersections ts)\<rparr>))"
proof -
  let ?ordered = "sorted_refs das ts"
  let ?xs = "assign_indices ?ordered 0 (intersections ts)"
  have ne: "?ordered \<noteq> []" using assms by simp
  have pos: "0 < length (intersections ts)" using assms by simp
  have "index (?xs ! hd ?ordered) = 0"
    using sorted_index [of 0 ts das] ne pos by (simp add: hd_conv_nth)
  moreover have "index (?xs ! last ?ordered) = int (length (intersections ts)) - 1"
    using sorted_index [of "length (intersections ts) - 1" ts das] ne pos
    by (simp add: last_conv_nth Suc_leI)
  ultimately show ?thesis
    using ne
    by (simp add: relevant_intersections_def get_intersections_def Let_def fold_relevant_step)
qed

lemma relevant_intersections_empty:
  "intersections ts = [] \<Longrightarrow> relevant_intersections das ts = Inl IndexError"
  by (simp add: relevant_intersections_def get_intersections_def Let_def)

section \<open>Properties: entity, constraint and endpoint intersections\<close>

lemma add_endpoint_inv:
  "endpoints_are_entities ts \<Longrightarrow> endpoints_are_entities (add_endpoint p ts)"
  by (simp add: endpoints_are_entities_def add_endpoint_def add_def new_Intersection_def
      is_endpoint_def is_entity_def)

lemma add_endpoints_inv:
  "add_endpoints cps ts = Inr ts' \<Longrightarrow> endpoints_are_entities ts \<Longrightarrow> endpoints_are_entities ts'"
  by (induction cps ts rule: add_endpoints.induct) (auto simp: add_endpoint_inv)

lemma new_TrimSegment_inv:
  assumes "new_TrimSegment seg closed cps p = Inr ts"
  shows "endpoints_are_entities ts"
proof -
  let ?ts0 = "\<lparr>segment = seg, pos = p, intersections = [], is_closed_flag = closed,
                connection_points = cps, obsolete_intersections = [], reuse_segment = False\<rparr>"
  have e: "endpoints_are_entities ?ts0"
    by (simp add: endpoints_are_entities_def)
  show ?thesis
  proof (cases closed)
    case True
    with assms e show ?thesis by (simp add: new_TrimSegment_def)
  next
    case False
    with assms have "add_endpoints cps ?ts0 = Inr ts" by (simp add: new_TrimSegment_def)
    then show ?thesis using e by (rule add_endpoints_inv)
  qed
qed

lemma add_inv:
  "endpoints_are_entities ts \<Longrightarrow> endpoints_are_entities (snd (add e c ts))"
  by (simp add: endpoints_are_entities_def add_def new_Intersection_def is_endpoint_def)

lemma add_all_inv:
  "endpoints_are_entities ts \<Longrightarrow> endpoints_are_entities (add_all adds ts)"
  by (induction adds ts rule: add_all.induct) (auto simp: add_inv)

theorem endpoint_is_entity_counterexample:
  "new_TrimSegment ex_line (is_closed ex_line) (segment_connection_points ex_trim_scene ex_line) (5, 0)
     = Inr ex_line_trim
   \<and> is_endpoint (intersections ex_line_trim ! 0) \<and> is_entity (intersections ex_line_trim ! 0)"
  by code_simp

text \<open>
  Claim C9, as amended: of every intersection of a \<^verbatim>\<open>TrimSegment\<close> exactly one of
  \<^verbatim>\<open>is_entity\<close> and \<^verbatim>\<open>is_constraint\<close> holds, and an endpoint is always an entity
  intersection as well (it wraps a connection point of the segment), never a constraint
  intersection. The claim as written, that no intersection satisfies two of the three
  classifications, fails on every endpoint.
\<close>

theorem intersection_classification:
  assumes "new_TrimSegment seg closed cps p = Inr ts"
    and "intr \<in> set (intersections (add_all adds ts))"
  shows "is_entity intr \<noteq> is_constraint intr
     \<and> (is_endpoint intr \<longrightarrow> is_entity intr \<and> \<not> is_constraint intr)"
proof -
  have x: "is_entity intr \<noteq> is_constraint intr"
    by (simp add: is_entity_def is_constraint_def split: elem.splits)
  have "endpoints_are_entities (add_all adds ts)"
    using assms(1) by (intro add_all_inv new_TrimSegment_inv)
  with assms(2) have "is_endpoint intr \<longrightarrow> is_entity intr"
    by (auto simp: endpoints_are_entities_def list_all_iff)
  with x show ?thesis by auto
qed

theorem intersection_classification_witness:
  "is_endpoint (intersections ex_line_trim ! 0) \<and> is_entity (intersections ex_line_trim ! 0)
     \<and> \<not> is_constraint (intersections ex_line_trim ! 0)"
proof -
  have a: "new_TrimSegment ex_line False [Some (ex_point 1 (0, 0)), Some (ex_point 2 (10, 0))] (5, 0)
      = Inr ex_line_trim"
    by code_simp
  have b: "intersections ex_line_trim ! 0
      \<in> set (intersections (add_all [(EntityElem (ex_segment 6 Line2D [4, 5, 0] [4, 5]), (3, 0))] ex_line_trim))"
    by (simp add: ex_line_trim_def add_def)
  have c: "is_endpoint (intersections ex_line_trim ! 0)"
    by code_simp
  show ?thesis using intersection_classification [OF a b] c by blast
qed

section \<open>Properties: the empty trim segment\<close>

text \<open>
  Claim C1: \<^verbatim>\<open>relevant_intersections\<close> returns the relevant list for every
  \<^verbatim>\<open>TrimSegment\<close>. For a circle that nothing crosses, the operator collects no
  intersection, and \<^verbatim>\<open>relevant_intersections\<close> raises \<^verbatim>\<open>IndexError\<close> instead of
  returning a list; so does the operator. With at least one intersection the list is the one
  the claim describes (\<open>relevant_intersections_nonempty\<close> above).
\<close>

theorem relevant_intersections_empty_raises:
  "collect_intersections no_intersect ex_circle (5, 0) ex_circle_scene = Inr ex_circle_trim
   \<and> intersections ex_circle_trim = []
   \<and> relevant_intersections ex_das ex_circle_trim = Inl IndexError
   \<and> fini ex_das no_intersect ex_circle (Some (5, 0)) True ex_circle_scene = Inl IndexError"
  by code_simp

section \<open>Properties: the validity check\<close>

lemma check_True_iff:
  "check das ts = Inr (True, ts') \<longleftrightarrow>
     (\<exists>relevant. relevant_intersections das ts = Inr (relevant, ts')
        \<and> (length relevant = 2 \<or> length relevant = 4))"
  by (auto simp: check_def split: sum.splits)

lemma fini_check_False:
  "collect_intersections intersect seg mp s = Inr trim \<Longrightarrow> check das trim = Inr (False, trim')
     \<Longrightarrow> fini das intersect seg (Some mp) True s = Inr s"
  by (simp add: fini_def)

text \<open>
  Claim C2: \<^verbatim>\<open>check\<close> returns true if and only if the number of relevant intersections
  is exactly 2 or 4, and when \<^verbatim>\<open>check\<close> returns false the trim operator leaves the scene
  as it is.
\<close>

theorem check_two_or_four:
  "(check das ts = Inr (True, ts') \<longleftrightarrow>
      (\<exists>relevant. relevant_intersections das ts = Inr (relevant, ts')
         \<and> (length relevant = 2 \<or> length relevant = 4)))
   \<and> (collect_intersections intersect seg mp s = Inr trim \<and> check das trim = Inr (False, trim')
        \<longrightarrow> fini das intersect seg (Some mp) True s = Inr s)"
  using check_True_iff [of das ts ts'] fini_check_False [of intersect seg mp s trim das trim']
  by blast

theorem check_two_or_four_witness:
  "collect_intersections no_intersect ex_line (5, 0) ex_trim_scene = Inr ex_line_trim
   \<and> check ex_das ex_line_trim = Inr (False, ex_line_trim_checked)
   \<and> fini ex_das no_intersect ex_line (Some (5, 0)) True ex_trim_scene = Inr ex_trim_scene"
proof -
  have a: "collect_intersections no_intersect ex_line (5, 0) ex_trim_scene = Inr ex_line_trim"
    by code_simp
  have b: "check ex_das ex_line_trim = Inr (False, ex_line_trim_checked)"
    by code_simp
  show ?thesis
    using a b check_two_or_four [of ex_das ex_line_trim ex_line_trim_checked no_intersect ex_line "(5, 0)"
        ex_trim_scene ex_line_trim ex_line_trim_checked]
    by blast
qed

section \<open>Properties: point materialization\<close>

lemma get_point_again:
  "get_point intr s = Inr (p, intr', s') \<Longrightarrow> get_point intr' s' = Inr (p, intr', s')"
  by (auto simp: get_point_def Let_def split: elem.splits if_splits option.splits list.splits prod.splits)

text \<open>
  Claim C8: calling \<^verbatim>\<open>get_point\<close> twice on the same intersection returns the same
  point both times, and the second call changes neither the intersection nor the scene: no
  second point entity and no second coincident constraint is created.
\<close>

theorem get_point_idempotent:
  "get_point intr s = Inr (p, intr', s') \<Longrightarrow> get_point intr' s' = Inr (p, intr', s')"
  by (rule get_point_again)

theorem get_point_idempotent_witness:
  "get_point ex_crossing ex_trim_scene
     = Inr (10, ex_crossing\<lparr>point_cache := Some 10\<rparr>, ex_trim_scene_with_point)
   \<and> get_point (ex_crossing\<lparr>point_cache := Some 10\<rparr>) ex_trim_scene_with_point
     = Inr (10, ex_crossing\<lparr>point_cache := Some 10\<rparr>, ex_trim_scene_with_point)"
proof -
  have a: "get_point ex_crossing ex_trim_scene
     = Inr (10, ex_crossing\<lparr>point_cache := Some 10\<rparr>, ex_trim_scene_with_point)"
    by code_simp
  show ?thesis using a get_point_idempotent [OF a] by simp
qed

section \<open>Properties: deleting entities\<close>

lemma entities_get_Some:
  "entities_get s i = Some e \<Longrightarrow> e \<in> set (entities s) \<and> int (slvs_index e) = i"
  unfolding entities_get_def find_Some_iff by auto

lemma entities_get_None_iff:
  "entities_get s i = None \<longleftrightarrow> (\<forall>e \<in> set (entities s). int (slvs_index e) \<noteq> i)"
  by (auto simp: entities_get_def find_None_iff)

text \<open>
  Claim C4: deleting a non-sketch entity that no entity references removes every constraint
  that depends on it, and afterwards no constraint references it. In the scene of the three
  points the free point 4 has the distance constraints 0 and 1; deleting it removes the
  constraints 0 and 2 and leaves the constraint 1, which references the deleted point: the
  local index 1 collected for the constraint 1 is stale once the index 0 has been removed.
\<close>

theorem delete_leaves_constraint:
  "is_entity_referenced (ex_point 4 (3, 5)) ex_points_scene = False
   \<and> entities_get ex_points_scene 4 = Some (ex_point 4 (3, 5))
   \<and> main ex_points_scene 4 = Inr (NoResult, ex_points_scene_after_delete, [])
   \<and> constraints_all ex_points_scene_after_delete = [\<lparr>cid = 1, type = DISTANCE, entity_is = [4, 2]\<rparr>]"
  by code_simp

text \<open>
  Claim C6: for a non-sketch entity \<open>A\<close> that is in the flattened dependencies of a scene
  entity \<open>B\<close>, the deletion is refused: \<^verbatim>\<open>main\<close> reports the dependents, returns the
  cancelled result and leaves the scene unchanged, and so does the operator called with the
  index of \<open>A\<close>.
\<close>

theorem referenced_entity_not_deleted:
  assumes "entities_get s i = Some A" and "kind A \<noteq> Sketch"
    and "B \<in> set (entities s)" and "Some (slvs_index A) \<in> set (get_flat_deps s B)"
  shows "main s i =
           Inr (CANCELLED, s,
                [MessagePopup (slvs_index A) (map slvs_index (get_entity_deps A s)),
                 ReportWarning (slvs_index A)])
     \<and> B \<in> set (get_entity_deps A s)
     \<and> execute s i =
           Inr (FINISHED, s,
                [MessagePopup (slvs_index A) (map slvs_index (get_entity_deps A s)),
                 ReportWarning (slvs_index A), ViewRefresh])"
proof -
  have B: "B \<in> set (get_entity_deps A s)"
    using assms(3,4) by (simp add: get_entity_deps_def)
  then have ref: "is_entity_referenced A s"
    by (auto simp: is_entity_referenced_def)
  have m: "main s i =
           Inr (CANCELLED, s,
                [MessagePopup (slvs_index A) (map slvs_index (get_entity_deps A s)),
                 ReportWarning (slvs_index A)])"
    using assms(1,2) ref by (simp add: main_def)
  have "i \<noteq> -1"
    using entities_get_Some [OF assms(1)] by auto
  then have "execute s i =
           Inr (FINISHED, s,
                [MessagePopup (slvs_index A) (map slvs_index (get_entity_deps A s)),
                 ReportWarning (slvs_index A), ViewRefresh])"
    by (simp add: execute_def m)
  with m B show ?thesis by simp
qed

theorem referenced_entity_not_deleted_witness:
  "main ex_points_scene 1 = Inr (CANCELLED, ex_points_scene, [MessagePopup 1 [3], ReportWarning 1])
   \<and> execute ex_points_scene 1
       = Inr (FINISHED, ex_points_scene, [MessagePopup 1 [3], ReportWarning 1, ViewRefresh])"
proof -
  have a: "entities_get ex_points_scene 1 = Some (ex_point 1 (0, 0))" by code_simp
  have b: "kind (ex_point 1 (0, 0)) \<noteq> Sketch" by code_simp
  have c: "ex_line \<in> set (entities ex_points_scene)" by code_simp
  have d: "Some (slvs_index (ex_point 1 (0, 0))) \<in> set (get_flat_deps ex_points_scene ex_line)"
    by code_simp
  have e: "slvs_index (ex_point 1 (0, 0)) = 1" by code_simp
  have f: "map slvs_index (get_entity_deps (ex_point 1 (0, 0)) ex_points_scene) = [3]" by code_simp
  from referenced_entity_not_deleted [OF a b c d] show ?thesis
    unfolding e f by blast
qed




text \<open>Deleting removes the entity, and a sketch with the entities that belong to it.\<close>

lemma coll_remove_entities: "entities (coll_remove k i s) = entities s"
  by (simp add: coll_remove_def split: prod.splits)

lemma remove_indices_entities:
  "remove_indices k is s = Inr s' \<Longrightarrow> entities s' = entities s"
  by (induction "is" arbitrary: s) (auto simp: coll_remove_entities split: if_splits)

lemma delete_constraints_entities:
  "delete_constraints ps s = Inr s' \<Longrightarrow> entities s' = entities s"
proof (induction ps arbitrary: s)
  case Nil
  then show ?case by simp
next
  case (Cons a ps)
  obtain k ixs where a: "a = (k, ixs)" by (cases a)
  from Cons.prems show ?case
    unfolding a
    by (auto split: if_splits sum.splits dest!: Cons.IH remove_indices_entities)
qed

lemma delete_entities:
  assumes "delete ent s = Inr s'"
  shows "entities s' = filter (\<lambda>e. slvs_index e \<noteq> slvs_index ent)
      (map (\<lambda>e. if slvs_index e = slvs_index ent then e\<lparr>selected := False\<rparr> else e) (entities s))"
proof -
  from assms obtain s2 where
    dc: "delete_constraints (rev (get_constraint_local_indices ent (set_selected (slvs_index ent) False s)))
           (set_selected (slvs_index ent) False s) = Inr s2"
    and s': "s' = entities_remove (slvs_index ent) s2"
    by (auto simp: delete_def Let_def split: sum.splits)
  show ?thesis
    unfolding s' using delete_constraints_entities [OF dc]
    by (simp add: entities_remove_def set_selected_def)
qed








section \<open>Properties: merging two points\<close>










section \<open>Properties: the reuse flag of replace\<close>

lemma intr_get_point_fields:
  "intr_get_point r ts s = Inr (p, ts', s') \<Longrightarrow>
     segment ts' = segment ts \<and> reuse_segment ts' = reuse_segment ts
     \<and> obsolete_intersections ts' = obsolete_intersections ts"
  by (auto simp: intr_get_point_def split: sum.splits)

lemma relevant_intersections_fields:
  assumes "relevant_intersections das ts = Inr (relevant, ts1)"
  shows "segment ts1 = segment ts \<and> reuse_segment ts1 = reuse_segment ts"
proof (cases "intersections ts = []")
  case True
  with assms show ?thesis by (simp add: relevant_intersections_empty)
next
  case False
  from assms show ?thesis
    unfolding relevant_intersections_nonempty [OF False]
    by (subst (asm) fold_mark_obsolete_eq) auto
qed

lemma ensure_loop_fields:
  "ensure_loop rs ts s = Inr (ts', s') \<Longrightarrow>
     segment ts' = segment ts \<and> reuse_segment ts' = reuse_segment ts"
proof (induction rs arbitrary: ts s)
  case Nil
  then show ?case by simp
next
  case (Cons r rs)
  then show ?case
    by (auto split: sum.splits dest!: intr_get_point_fields)
qed

lemma ensure_points_fields:
  "ensure_points das ts s = Inr (ts', s') \<Longrightarrow>
     segment ts' = segment ts \<and> reuse_segment ts' = reuse_segment ts"
  by (auto simp: ensure_points_def split: sum.splits
      dest!: relevant_intersections_fields ensure_loop_fields)

lemma replace_step_reuse:
  assumes "replace_step i intrs cs ts s = Inr (cs', ts', s', ws)"
  shows "segment ts' = segment ts
     \<and> reuse_segment ts' = (reuse_segment ts \<or> (i = 0 \<and> kind (segment ts) \<noteq> Circle))"
  using assms
  by (auto simp: replace_step_def Let_def split: prod.splits sum.splits if_splits
      dest!: intr_get_point_fields)

lemma replace_loop_reuse:
  "replace_loop i pairs cs ts s = Inr (cs', ts', s') \<Longrightarrow>
     segment ts' = segment ts
     \<and> reuse_segment ts' =
         (reuse_segment ts \<or> (i = 0 \<and> pairs \<noteq> [] \<and> kind (segment ts) \<noteq> Circle))"
proof (induction pairs arbitrary: i cs ts s)
  case Nil
  then show ?case by simp
next
  case (Cons intrs pairs)
  from Cons.prems obtain cs1 ts1 s1 ws where
    st: "replace_step i intrs cs ts s = Inr (cs1, ts1, s1, ws)"
    and lp: "replace_loop (Suc i) pairs cs1 ts1 s1 = Inr (cs', ts', s')"
    by (auto split: sum.splits)
  from Cons.IH [OF lp] replace_step_reuse [OF st] show ?case by auto
qed

lemma replace_Inr:
  assumes "replace das ts s = Inr (ts', s')"
  obtains relevant ts1 ts2 s2 cs ts3 s3 s4 where
    "relevant_intersections das ts = Inr (relevant, ts1)"
    "ensure_points das ts1 s = Inr (ts2, s2)"
    "replace_loop 0 (map (\<lambda>i. (relevant ! (i * 2), relevant ! (i * 2 + 1))) [0..<length relevant div 2])
       (map (\<lambda>c. (c, constr_entities c))
          (filter (\<lambda>c. slvs_index (segment ts1) \<in> set (constr_entities c)) (constraints_all s)))
       ts2 s2 = Inr (cs, ts3, s3)"
    "remove_obsolete (obsolete_intersections ts3) ts3 s3 = Inr s4"
    "ts' = ts3"
    "s' = (if \<not> reuse_segment ts3 then entities_remove (slvs_index (segment ts3)) s4 else s4)"
  using assms
  by (auto simp: replace_def Let_def split: sum.splits prod.splits)

lemma entities_get_removed: "entities_get (entities_remove i s) (int i) = None"
  by (simp add: entities_get_None_iff entities_remove_def)

lemma replace_reuse:
  assumes "replace das ts s = Inr (ts', s')" and "\<not> reuse_segment ts"
    and "relevant_intersections das ts = Inr (relevant, ts1)"
  shows "reuse_segment ts' = (2 \<le> length relevant \<and> kind (segment ts) \<noteq> Circle)"
    and "\<not> reuse_segment ts' \<Longrightarrow> entities_get s' (int (slvs_index (segment ts))) = None"
proof -
  from assms(1) obtain relevant' ts1' ts2 s2 cs ts3 s3 s4 where
    r: "relevant_intersections das ts = Inr (relevant', ts1')"
    and e: "ensure_points das ts1' s = Inr (ts2, s2)"
    and l: "replace_loop 0 (map (\<lambda>i. (relevant' ! (i * 2), relevant' ! (i * 2 + 1))) [0..<length relevant' div 2])
       (map (\<lambda>c. (c, constr_entities c))
          (filter (\<lambda>c. slvs_index (segment ts1') \<in> set (constr_entities c)) (constraints_all s)))
       ts2 s2 = Inr (cs, ts3, s3)"
    and ts': "ts' = ts3"
    and s': "s' = (if \<not> reuse_segment ts3 then entities_remove (slvs_index (segment ts3)) s4 else s4)"
    by (rule replace_Inr)
  from r assms(3) have eq: "relevant' = relevant" "ts1' = ts1" by simp_all
  have f1: "segment ts1 = segment ts" "reuse_segment ts1 = reuse_segment ts"
    using relevant_intersections_fields [OF assms(3)] by simp_all
  have f2: "segment ts2 = segment ts" "reuse_segment ts2 = reuse_segment ts"
    using ensure_points_fields [OF e] f1 eq by simp_all
  have f3: "segment ts3 = segment ts"
    "reuse_segment ts3 = (length relevant div 2 \<noteq> 0 \<and> kind (segment ts) \<noteq> Circle)"
    using replace_loop_reuse [OF l] f2 assms(2) eq by simp_all
  show "reuse_segment ts' = (2 \<le> length relevant \<and> kind (segment ts) \<noteq> Circle)"
    using f3 ts' by auto
  show "entities_get s' (int (slvs_index (segment ts))) = None" if "\<not> reuse_segment ts'"
    using that ts' s' f3 by (simp add: entities_get_removed)
qed

section \<open>Properties: repeating the classification\<close>

lemma insort_key_cong':
  "f x = g x \<Longrightarrow> \<forall>y \<in> set ys. f y = g y \<Longrightarrow> insort_key f x ys = insort_key g x ys"
  by (induction ys) auto

lemma sort_key_cong':
  "\<forall>x \<in> set xs. f x = g x \<Longrightarrow> sort_key f xs = sort_key g xs"
  by (induction xs) (auto intro: insort_key_cong')

lemma assign_indices_nth:
  "distinct rs \<Longrightarrow> \<forall>r \<in> set rs. r < length xs \<Longrightarrow> j < length rs \<Longrightarrow>
     assign_indices rs i xs ! (rs ! j) = (xs ! (rs ! j))\<lparr>index := i + int j\<rparr>"
proof (induction rs i xs arbitrary: j rule: assign_indices.induct)
  case (1 i xs)
  then show ?case by simp
next
  case (2 r rs i xs)
  show ?case
  proof (cases j)
    case 0
    with 2 show ?thesis by (simp add: assign_indices_notin)
  next
    case (Suc k)
    with 2 have "rs ! k \<noteq> r" by auto
    with 2 Suc show ?thesis by simp
  qed
qed

lemma assign_indices_idem:
  assumes "distinct rs" and "\<forall>r \<in> set rs. r < length xs"
  shows "assign_indices rs i (assign_indices rs i xs) = assign_indices rs i xs"
proof (rule nth_equalityI)
  show "length (assign_indices rs i (assign_indices rs i xs)) = length (assign_indices rs i xs)"
    by simp
next
  fix k assume "k < length (assign_indices rs i (assign_indices rs i xs))"
  show "assign_indices rs i (assign_indices rs i xs) ! k = assign_indices rs i xs ! k"
  proof (cases "k \<in> set rs")
    case False
    then show ?thesis by (simp add: assign_indices_notin)
  next
    case True
    then obtain j where j: "j < length rs" "rs ! j = k" by (auto simp: in_set_conv_nth)
    have b: "\<forall>r \<in> set rs. r < length (assign_indices rs i xs)" using assms(2) by simp
    show ?thesis
      using assign_indices_nth [OF assms(1) b j(1), of i] assign_indices_nth [OF assms(1,2) j(1), of i] j(2)
      by simp
  qed
qed

lemma assign_indices_co:
  "k < length xs \<Longrightarrow> co (assign_indices rs i xs ! k) = co (xs ! k)"
proof (induction rs i xs rule: assign_indices.induct)
  case (1 i xs)
  then show ?case by simp
next
  case (2 r rs i xs)
  then show ?case by (cases "k = r") auto
qed

lemma fold_mark_obsolete_id:
  "set rs \<subseteq> set (obsolete_intersections ts) \<Longrightarrow> fold mark_obsolete rs ts = ts"
  by (induction rs arbitrary: ts) (auto simp: mark_obsolete_def)

lemma fold_mark_obsolete_fields:
  "intersections (fold mark_obsolete rs ts) = intersections ts"
  "segment (fold mark_obsolete rs ts) = segment ts"
  "pos (fold mark_obsolete rs ts) = pos ts"
  "reuse_segment (fold mark_obsolete rs ts) = reuse_segment ts"
  by (induction rs arbitrary: ts) (simp_all add: mark_obsolete_def)

lemma relevant_intersections_repeat:
  assumes "relevant_intersections das ts = Inr (relevant, ts1)"
  shows "relevant_intersections das ts1 = Inr (relevant, ts1)"
    and "set relevant \<subseteq> {0..<length (intersections ts1)}"
proof -
  have ne: "intersections ts \<noteq> []"
    using assms by (auto simp: relevant_intersections_empty)
  let ?ord = "sorted_refs das ts"
  let ?xs = "assign_indices ?ord 0 (intersections ts)"
  let ?cl = "(0, int (length (intersections ts)) - 1)"
  let ?obs = "filter (is_obsolete ?cl ?xs) ?ord"
  from assms have rel: "relevant = filter (is_relevant ?cl ?xs) ?ord"
    and ts1: "ts1 = fold mark_obsolete ?obs (ts\<lparr>intersections := ?xs\<rparr>)"
    unfolding relevant_intersections_nonempty [OF ne] by simp_all
  have ix: "intersections ts1 = ?xs" and sg: "segment ts1 = segment ts" and ps: "pos ts1 = pos ts"
    unfolding ts1 by (simp_all add: fold_mark_obsolete_fields)
  have ne1: "intersections ts1 \<noteq> []" using ne ix by (metis length_assign_indices length_0_conv)
  have ord: "sorted_refs das ts1 = ?ord"
    unfolding sorted_refs_def ix sg ps
    by (simp, rule sort_key_cong') (simp add: assign_indices_co)
  have bound: "\<forall>r \<in> set ?ord. r < length (intersections ts)" by simp
  have xs: "assign_indices ?ord 0 ?xs = ?xs"
    by (rule assign_indices_idem) (simp_all)
  have sub: "set ?obs \<subseteq> set (obsolete_intersections ts1)"
    unfolding ts1 fold_mark_obsolete_set by simp
  have "relevant_intersections das ts1 =
      Inr (relevant, fold mark_obsolete ?obs (ts1\<lparr>intersections := ?xs\<rparr>))"
    unfolding relevant_intersections_nonempty [OF ne1] ord
    unfolding ix xs rel by simp
  moreover have "ts1\<lparr>intersections := ?xs\<rparr> = ts1" by (subst ix [symmetric]) simp
  ultimately show "relevant_intersections das ts1 = Inr (relevant, ts1)"
    using fold_mark_obsolete_id [OF sub] by simp
  show "set relevant \<subseteq> {0..<length (intersections ts1)}"
    unfolding rel ix by auto
qed

section \<open>Properties: materialized points stay materialized\<close>

lemma fold_max_ge: "(a::nat) \<le> fold max xs a"
  by (induction xs arbitrary: a) (auto intro: order_trans [OF max.cobounded2])

lemma fold_max_mem: "x \<in> set xs \<Longrightarrow> (x::nat) \<le> fold max xs a"
proof (induction xs arbitrary: a)
  case Nil
  then show ?case by simp
next
  case (Cons y ys)
  show ?case
  proof (cases "x = y")
    case True
    have "y \<le> max y a" by simp
    also have "\<dots> \<le> fold max ys (max y a)" by (rule fold_max_ge)
    finally show ?thesis using True by simp
  next
    case False
    with Cons show ?thesis by simp
  qed
qed

lemma fresh_cid_greater: "c \<in> set (constraints_all s) \<Longrightarrow> cid c < fresh_cid s"
  using fold_max_mem [of "cid c" "map cid (constraints_all s)" 0]
  by (simp add: fresh_cid_def less_Suc_eq_le)

lemma find_append_eq:
  "find P (xs @ ys) = (case find P xs of None \<Rightarrow> find P ys | Some x \<Rightarrow> Some x)"
  by (induction xs) auto

lemma find_append_to_coll:
  "\<not> P c \<Longrightarrow> find P (concat (map snd (append_to_coll t c cs))) = find P (concat (map snd cs))"
  by (induction t c cs rule: append_to_coll.induct) (auto simp: find_append_eq split: option.splits)

lemma constraints_get_Some:
  "constraints_get s k = Some c \<Longrightarrow> c \<in> set (constraints_all s) \<and> cid c = k"
  unfolding constraints_get_def find_Some_iff by auto

lemma constraints_get_new_constraint:
  assumes "constraints_get s k = Some c"
  shows "constraints_get (snd (new_constraint t ents s)) k = Some c"
proof -
  have "k < fresh_cid s"
    using constraints_get_Some [OF assms] fresh_cid_greater by blast
  then have "\<not> (\<lambda>c. cid c = k) \<lparr>cid = fresh_cid s, type = t, entity_is = ents\<rparr>"
    by simp
  from find_append_to_coll [of "\<lambda>c. cid c = k", OF this] assms show ?thesis
    by (simp add: constraints_get_def constraints_all_def new_constraint_def Let_def)
qed

lemma constraints_get_add_point_2d:
  "constraints_get (snd (add_point_2d c sk s)) k = constraints_get s k"
  by (simp add: constraints_get_def constraints_all_def add_point_2d_def Let_def)

lemma get_point_cases:
  assumes "get_point y s = Inr (q, y', s')"
  shows "(y' = y \<and> s' = s) \<or>
     (\<exists>i. s' = snd (add_coincident (fst (add_point_2d (co y) (active_sketch s) s)) i
                      (snd (add_point_2d (co y) (active_sketch s) s))))"
proof (cases "s' = s \<and> y' = y")
  case True
  then show ?thesis by simp
next
  case False
  with assms obtain e where "element y = EntityElem e"
    and "s' = snd (add_coincident (fst (add_point_2d (co y) (active_sketch s) s)) (slvs_index e)
                      (snd (add_point_2d (co y) (active_sketch s) s)))"
    by (auto simp: get_point_def Let_def split_beta
        split: elem.splits if_splits option.splits list.splits)
  then show ?thesis by blast
qed

lemma get_point_constraints_get:
  assumes "get_point y s = Inr (q, y', s')" and "constraints_get s k = Some c"
  shows "constraints_get s' k = Some c"
  using get_point_cases [OF assms(1)] assms(2)
  by (auto simp: add_coincident_def constraints_get_new_constraint constraints_get_add_point_2d)

lemma get_point_materialized:
  "get_point x s = Inr (p, x', s') \<Longrightarrow> materialized x' s'"
  using get_point_again [of x s p x' s'] by (simp add: materialized_def)

lemma point_cache_update_eq: "(x\<lparr>point_cache := v\<rparr> = x) = (point_cache x = v)"
  by (cases x) auto

lemma materialized_iff:
  "materialized x s =
     (case element x of
        EntityElem e \<Rightarrow> is_point e \<or> point_cache x \<noteq> None
      | ConstraintElem c \<Rightarrow>
          (\<exists>c'. constraints_get s (cid c) = Some c' \<and> constr_entities c' \<noteq> []))"
  by (auto simp: materialized_def get_point_def Let_def split_beta point_cache_update_eq
      split: elem.splits option.splits list.splits)

lemma materialized_stable:
  assumes "materialized x s" and "get_point y s = Inr (q, y', s')"
  shows "materialized x s'"
  using assms(1) get_point_constraints_get [OF assms(2)]
  by (auto simp: materialized_iff split: elem.splits)

lemma intr_get_point_materialized:
  assumes "materialized (intersections t ! r) u"
  shows "\<exists>p. intr_get_point r t u = Inr (p, t, u)"
  using assms
  by (auto simp: materialized_def intr_get_point_def split: sum.splits)

lemma ensure_loop_materialized:
  "ensure_loop rs t u = Inr (t', u') \<Longrightarrow>
     \<forall>r \<in> set rs \<union> M. r < length (intersections t) \<Longrightarrow>
     \<forall>r \<in> M. materialized (intersections t ! r) u \<Longrightarrow>
     (\<forall>r \<in> set rs \<union> M. materialized (intersections t' ! r) u')"
proof (induction rs arbitrary: t u M)
  case Nil
  then show ?case by simp
next
  case (Cons r rs)
  from Cons.prems(1) obtain p t1 u1 where
    g: "intr_get_point r t u = Inr (p, t1, u1)" and l: "ensure_loop rs t1 u1 = Inr (t', u')"
    by (auto split: sum.splits)
  from g obtain intr' where
    gp: "get_point (intersections t ! r) u = Inr (p, intr', u1)"
    and t1: "intersections t1 = (intersections t)[r := intr']"
    by (auto simp: intr_get_point_def split: sum.splits)
  have len: "\<forall>k \<in> set rs \<union> insert r M. k < length (intersections t1)"
    using Cons.prems(2) t1 by simp
  have mat: "\<forall>k \<in> insert r M. materialized (intersections t1 ! k) u1"
  proof
    fix k assume k: "k \<in> insert r M"
    show "materialized (intersections t1 ! k) u1"
    proof (cases "k = r")
      case True
      with Cons.prems(2) t1 get_point_materialized [OF gp] show ?thesis by simp
    next
      case False
      with k Cons.prems(3) have "materialized (intersections t ! k) u" by simp
      from materialized_stable [OF this gp] False t1 show ?thesis by simp
    qed
  qed
  from Cons.IH [OF l len mat] show ?case by simp
qed

lemma ensure_points_materialized:
  assumes "relevant_intersections das ts = Inr (relevant, ts1)"
    and "ensure_points das ts1 s = Inr (ts2, s2)"
  shows "\<forall>r \<in> set relevant. materialized (intersections ts2 ! r) s2"
proof -
  have l: "ensure_loop relevant ts1 s = Inr (ts2, s2)"
    using assms(2) relevant_intersections_repeat(1) [OF assms(1)]
    by (simp add: ensure_points_def)
  have b: "\<forall>r \<in> set relevant \<union> {}. r < length (intersections ts1)"
    using relevant_intersections_repeat(2) [OF assms(1)] by auto
  from ensure_loop_materialized [OF l b] show ?thesis by simp
qed

text \<open>Materializing a point removes or changes no constraint.\<close>

lemma append_to_coll_set:
  "set (concat (map snd (append_to_coll t c cs))) = insert c (set (concat (map snd cs)))"
  by (induction t c cs rule: append_to_coll.induct) auto

lemma new_constraint_keeps:
  "set (constraints_all s) \<subseteq> set (constraints_all (snd (new_constraint t ents s)))"
  by (auto simp: constraints_all_def new_constraint_def Let_def append_to_coll_set
      simp del: set_concat)

lemma get_point_keeps:
  assumes "get_point y s = Inr (q, y', s')"
  shows "set (constraints_all s) \<subseteq> set (constraints_all s')"
proof (cases "s' = s")
  case True
  then show ?thesis by simp
next
  case False
  with get_point_cases [OF assms] obtain i where
    s': "s' = snd (new_constraint COINCIDENT [fst (add_point_2d (co y) (active_sketch s) s), i]
                    (snd (add_point_2d (co y) (active_sketch s) s)))"
    by (auto simp: add_coincident_def)
  have "constraints_all (snd (add_point_2d (co y) (active_sketch s) s)) = constraints_all s"
    by (simp add: constraints_all_def add_point_2d_def Let_def)
  with new_constraint_keeps [of "snd (add_point_2d (co y) (active_sketch s) s)" COINCIDENT
      "[fst (add_point_2d (co y) (active_sketch s) s), i]"]
  show ?thesis unfolding s' by simp
qed

lemma ensure_loop_keeps:
  "ensure_loop rs t u = Inr (t', u') \<Longrightarrow> set (constraints_all u) \<subseteq> set (constraints_all u')"
proof (induction rs arbitrary: t u)
  case Nil
  then show ?case by simp
next
  case (Cons r rs)
  from Cons.prems obtain p t1 u1 where
    g: "intr_get_point r t u = Inr (p, t1, u1)" and l: "ensure_loop rs t1 u1 = Inr (t', u')"
    by (auto split: sum.splits)
  from g obtain intr' where "get_point (intersections t ! r) u = Inr (p, intr', u1)"
    by (auto simp: intr_get_point_def split: sum.splits)
  from get_point_keeps [OF this] Cons.IH [OF l] show ?case by blast
qed

lemma ensure_points_keeps:
  "ensure_points das ts s = Inr (ts', s') \<Longrightarrow> set (constraints_all s) \<subseteq> set (constraints_all s')"
  by (auto simp: ensure_points_def split: sum.splits dest!: ensure_loop_keeps)

section \<open>Properties: the first pair of replace\<close>

lemma entities_get_not_None_iff:
  "entities_get s (int i) \<noteq> None \<longleftrightarrow> i \<in> slvs_index ` set (entities s)"
  by (auto simp: entities_get_None_iff)

lemma first_pair:
  "2 \<le> length relevant \<Longrightarrow>
     map (\<lambda>i. (relevant ! (i * 2), relevant ! (i * 2 + 1))) [0..<length relevant div 2]
       = (relevant ! 0, relevant ! 1)
           # map (\<lambda>i. (relevant ! (i * 2), relevant ! (i * 2 + 1))) [1..<length relevant div 2]"
proof -
  assume "2 \<le> length relevant"
  then have "0 < length relevant div 2" by simp
  then have "[0..<length relevant div 2] = 0 # [1..<length relevant div 2]"
    by (simp add: upt_conv_Cons)
  then show ?thesis by simp
qed

lemma ex_line_facts:
  "collect_intersections ex_intersect ex_line (5, 0) ex_trim_scene
     = Inr (ex_crossed_trim [-1, -1, -1, -1] [None, None, None, None] False)"
  "check ex_das (ex_crossed_trim [-1, -1, -1, -1] [None, None, None, None] False)
     = Inr (True, ex_crossed_trim [2, 1, 3, 0] [None, None, None, None] False)"
  "relevant_intersections ex_das (ex_crossed_trim [2, 1, 3, 0] [None, None, None, None] False)
     = Inr ([3, 1, 0, 2], ex_crossed_trim [2, 1, 3, 0] [None, None, None, None] False)"
  "replace ex_das (ex_crossed_trim [2, 1, 3, 0] [None, None, None, None] False) ex_trim_scene
     = Inr (ex_crossed_trim [2, 1, 3, 0] [None, None, Some 11, Some 10] True, ex_trimmed_scene)"
  by code_simp+

lemma ex_circle_facts:
  "collect_intersections ex_circle_intersect ex_circle (0, 5) ex_circle_crossed_scene
     = Inr (ex_circle_crossed_trim [-1, -1] [None, None])"
  "check ex_circle_das (ex_circle_crossed_trim [-1, -1] [None, None])
     = Inr (True, ex_circle_crossed_trim [0, 1] [None, None])"
  "relevant_intersections ex_circle_das (ex_circle_crossed_trim [0, 1] [None, None])
     = Inr ([0, 1], ex_circle_crossed_trim [0, 1] [None, None])"
  "replace ex_circle_das (ex_circle_crossed_trim [0, 1] [None, None]) ex_circle_crossed_scene
     = Inr (ex_circle_crossed_trim [0, 1] [Some 6, Some 7], ex_circle_trimmed_scene)"
  by code_simp+

section \<open>Properties: what replace leaves of the entity store\<close>

lemma extends_refl: "extends s s"
  by (simp add: extends_def)

lemma extends_trans: "extends s s' \<Longrightarrow> extends s' s'' \<Longrightarrow> extends s s''"
  by (auto simp: extends_def)

lemma extends_get:
  "extends s s' \<Longrightarrow> entities_get s i = Some e \<Longrightarrow> entities_get s' i = Some e"
  by (auto simp: extends_def entities_get_def find_append_eq)

lemma extends_not_sketch:
  "extends s s' \<Longrightarrow> not_sketch_index s i \<Longrightarrow> not_sketch_index s' i"
  by (auto simp: extends_def not_sketch_index_def list_all_iff)

lemma new_constraint_entities: "entities (snd (new_constraint t ents s)) = entities s"
  by (simp add: new_constraint_def Let_def)

lemma get_point_extends:
  assumes "get_point y s = Inr (q, y', s')"
  shows "extends s s'"
  using get_point_cases [OF assms]
  by (auto simp: extends_def add_coincident_def new_constraint_entities add_point_2d_def Let_def)

lemma intr_get_point_extends:
  "intr_get_point r t u = Inr (p, t', u') \<Longrightarrow> extends u u'"
  by (auto simp: intr_get_point_def split: sum.splits dest: get_point_extends)

lemma ensure_loop_extends:
  "ensure_loop rs t u = Inr (t', u') \<Longrightarrow> extends u u'"
proof (induction rs arbitrary: t u)
  case Nil
  then show ?case by (simp add: extends_refl)
next
  case (Cons r rs)
  from Cons.prems obtain p t1 u1 where
    g: "intr_get_point r t u = Inr (p, t1, u1)" and l: "ensure_loop rs t1 u1 = Inr (t', u')"
    by (auto split: sum.splits)
  from extends_trans [OF intr_get_point_extends [OF g] Cons.IH [OF l]] show ?case .
qed

lemma ensure_points_extends:
  "ensure_points das ts s = Inr (ts', s') \<Longrightarrow> extends s s'"
  by (auto simp: ensure_points_def split: sum.splits dest: ensure_loop_extends)

lemma segment_replace_new_extends:
  assumes "segment_replace seg p1 p2 False s = Inr (n, s')"
    and "entities_get s (int (slvs_index seg)) = Some e" and "is_segment e"
  shows "extends s s'"
  using assms by (auto simp: segment_replace_def extends_def Let_def is_segment_def)

lemma set_entity_i_entities: "entities (set_entity_i c i v s) = entities s"
  by (simp add: set_entity_i_def)

lemma copy_constraints_entities:
  "copy_constraints i seg n cs s = Inr (cs', s', ws) \<Longrightarrow> entities s' = entities s"
proof (induction cs arbitrary: i s cs' s' ws)
  case Nil
  then show ?case by simp
next
  case (Cons a cs)
  obtain c ents where a: "a = (c, ents)" by (cases a)
  from Cons.prems show ?case
    unfolding a
    by (auto simp: Let_def split_beta constr_copy_def new_constraint_entities set_entity_i_entities
        split: option.splits if_splits sum.splits dest!: Cons.IH)
qed

lemma replace_step_extends:
  assumes "replace_step i intrs cs t u = Inr (cs', t', u', ws)"
    and "\<not> (i = 0 \<and> kind (segment t) \<noteq> Circle)"
    and "entities_get u (int (slvs_index (segment t))) = Some e" and "is_segment e"
  shows "extends u u'"
proof -
  obtain r1 r2 where intrs: "intrs = (r1, r2)" by (cases intrs)
  from assms(1,2) obtain p1 t1 u1 p2 t2 u2 n u3 where
    g1: "intr_get_point r1 t u = Inr (p1, t1, u1)"
    and g2: "intr_get_point r2 t1 u1 = Inr (p2, t2, u2)"
    and sr: "segment_replace (segment t2) p1 p2 False u2 = Inr (n, u3)"
    and cc: "copy_constraints i (slvs_index (segment t2)) n cs u3 = Inr (cs', u', ws)"
    unfolding intrs by (auto simp: replace_step_def split: sum.splits if_splits)
  have sg: "segment t2 = segment t"
    using intr_get_point_fields [OF g1] intr_get_point_fields [OF g2] by simp
  have e1: "extends u u2"
    using extends_trans [OF intr_get_point_extends [OF g1] intr_get_point_extends [OF g2]] .
  have "entities_get u2 (int (slvs_index (segment t2))) = Some e"
    unfolding sg using extends_get [OF e1 assms(3)] .
  from segment_replace_new_extends [OF sr this assms(4)] have "extends u2 u3" .
  moreover have "entities u' = entities u3" using copy_constraints_entities [OF cc] .
  ultimately have "extends u2 u'" by (simp add: extends_def)
  with e1 show ?thesis by (rule extends_trans)
qed

lemma replace_loop_extends:
  "replace_loop i pairs cs t u = Inr (cs', t', u') \<Longrightarrow> 0 < i \<Longrightarrow>
     entities_get u (int (slvs_index (segment t))) = Some e \<Longrightarrow> is_segment e \<Longrightarrow>
     extends u u'"
proof (induction pairs arbitrary: i cs t u)
  case Nil
  then show ?case by (simp add: extends_refl)
next
  case (Cons intrs pairs)
  from Cons.prems(1) obtain cs1 t1 u1 ws where
    st: "replace_step i intrs cs t u = Inr (cs1, t1, u1, ws)"
    and lp: "replace_loop (Suc i) pairs cs1 t1 u1 = Inr (cs', t', u')"
    by (auto split: sum.splits)
  have e1: "extends u u1"
    using replace_step_extends [OF st _ Cons.prems(3,4)] Cons.prems(2) by simp
  have sg: "segment t1 = segment t" using replace_step_reuse [OF st] by simp
  have "entities_get u1 (int (slvs_index (segment t1))) = Some e"
    unfolding sg using extends_get [OF e1 Cons.prems(3)] .
  from Cons.IH [OF lp _ this Cons.prems(4)] have "extends u1 u'" by simp
  with e1 show ?case by (rule extends_trans)
qed

lemma find_filter_map_other:
  assumes a: "\<forall>x. P (f x) = P x" and b: "\<forall>x. P x \<longrightarrow> Q (f x) \<and> f x = x"
  shows "find P (filter Q (map f xs)) = find P xs"
proof (induction xs)
  case Nil
  then show ?case by simp
next
  case (Cons y ys)
  show ?case
  proof (cases "P y")
    case True
    with b have "Q (f y) \<and> f y = y" by blast
    then have "f y = y" "Q y" by auto
    with True show ?thesis by simp
  next
    case False
    with a have "\<not> P (f y)" by simp
    with False Cons.IH show ?thesis by simp
  qed
qed

lemma delete_other:
  assumes "delete ent s = Inr s'" and "j \<noteq> slvs_index ent"
  shows "entities_get s' (int j) = entities_get s (int j)"
    and "not_sketch_index s k \<Longrightarrow> not_sketch_index s' k"
proof -
  note en = delete_entities [OF assms(1)]
  show "entities_get s' (int j) = entities_get s (int j)"
    unfolding entities_get_def en using assms(2)
    by (intro find_filter_map_other) auto
  show "not_sketch_index s' k" if "not_sketch_index s k"
    using that unfolding not_sketch_index_def en by (auto simp: list_all_iff)
qed

lemma main_other:
  assumes "main s (int i) = Inr (r, s', ev)" and "not_sketch_index s i" and "j \<noteq> i"
  shows "entities_get s' (int j) = entities_get s (int j)"
    and "not_sketch_index s k \<Longrightarrow> not_sketch_index s' k"
proof -
  have "entities_get s' (int j) = entities_get s (int j)
      \<and> (not_sketch_index s k \<longrightarrow> not_sketch_index s' k)"
  proof (cases "entities_get s (int i)")
    case None
    with assms(1) show ?thesis by (simp add: main_def)
  next
    case (Some ent)
    from entities_get_Some [OF Some] have m: "ent \<in> set (entities s)" and ix: "slvs_index ent = i"
      by simp_all
    with assms(2) have ns: "kind ent \<noteq> Sketch"
      by (auto simp: not_sketch_index_def list_all_iff)
    show ?thesis
    proof (cases "is_entity_referenced ent s")
      case True
      with assms(1) Some ns show ?thesis by (simp add: main_def)
    next
      case False
      with assms(1) Some ns obtain d: "delete ent s = Inr s'"
        by (auto simp: main_def split: sum.splits)
      from delete_other [OF d] assms(3) ix show ?thesis by simp
    qed
  qed
  then show "entities_get s' (int j) = entities_get s (int j)"
    and "not_sketch_index s k \<Longrightarrow> not_sketch_index s' k" by simp_all
qed

lemma execute_other:
  assumes "execute s (int i) = Inr (r, s', ev)" and "not_sketch_index s i" and "j \<noteq> i"
  shows "entities_get s' (int j) = entities_get s (int j)"
    and "not_sketch_index s k \<Longrightarrow> not_sketch_index s' k"
proof -
  from assms(1) obtain r' ev' where m: "main s (int i) = Inr (r', s', ev')"
    by (cases "main s (int i)") (auto simp: execute_def Let_def split: sum.splits if_splits)
  from main_other [OF m assms(2,3)]
  show "entities_get s' (int j) = entities_get s (int j)"
    and "not_sketch_index s k \<Longrightarrow> not_sketch_index s' k" by simp_all
qed

lemma remove_obsolete_spares:
  "remove_obsolete rs t u = Inr u' \<Longrightarrow>
     list_all (\<lambda>r. cleanup_spares j u (element (intersections t ! r))) rs \<Longrightarrow>
     entities_get u' (int j) = entities_get u (int j)"
proof (induction rs arbitrary: u)
  case Nil
  then show ?case by simp
next
  case (Cons r rs)
  show ?case
  proof (cases "element (intersections t ! r)")
    case (ConstraintElem c)
    with Cons.prems(1) obtain k i where
      l: "remove_obsolete rs t (coll_remove k i u) = Inr u'"
      by (auto split: option.splits)
    have "list_all (\<lambda>r. cleanup_spares j (coll_remove k i u) (element (intersections t ! r))) rs"
      using Cons.prems(2)
      by (auto simp: list_all_iff cleanup_spares_def not_sketch_index_def coll_remove_entities
          split: elem.splits)
    from Cons.IH [OF l this] show ?thesis
      by (simp add: entities_get_def coll_remove_entities)
  next
    case (EntityElem e)
    with Cons.prems(1) obtain res u1 ev where
      x: "execute u (int (slvs_index e)) = Inr (res, u1, ev)"
      and l: "remove_obsolete rs t u1 = Inr u'"
      by (auto split: sum.splits)
    from Cons.prems(2) EntityElem have sp: "slvs_index e \<noteq> j" "not_sketch_index u (slvs_index e)"
      by (simp_all add: cleanup_spares_def)
    have ns: "not_sketch_index u1 k" if "not_sketch_index u k" for k
      using execute_other(2) [OF x sp(2), of j k] sp(1) that by auto
    have "list_all (\<lambda>r. cleanup_spares j u1 (element (intersections t ! r))) rs"
      using Cons.prems(2) ns
      by (auto simp: cleanup_spares_def list_all_iff split: elem.splits)
    from Cons.IH [OF l this] execute_other(1) [OF x sp(2), of j] sp(1) show ?thesis
      by simp
  qed
qed

lemma entities_get_map:
  assumes "\<forall>x. slvs_index (f x) = slvs_index x"
  shows "entities_get (s\<lparr>entities := map f (entities s)\<rparr>) i = map_option f (entities_get s i)"
proof -
  have "find (\<lambda>e. int (slvs_index e) = i) (map f xs) = map_option f (find (\<lambda>e. int (slvs_index e) = i) xs)"
    for xs
    using assms by (induction xs) auto
  then show ?thesis by (simp add: entities_get_def)
qed

lemma replace_step_first_reused:
  assumes "kind (segment t) \<noteq> Circle"
    and "materialized (intersections t ! r1) u" and "materialized (intersections t ! r2) u"
    and "replace_step 0 (r1, r2) cs t u = Inr (cs', t', u', ws)"
  shows "\<exists>p1 p2 cur.
      intr_get_point r1 t u = Inr (p1, t, u) \<and> intr_get_point r2 t u = Inr (p2, t, u)
      \<and> entities_get u (int (slvs_index (segment t))) = Some cur
      \<and> cs' = cs \<and> ws = [] \<and> t' = t\<lparr>reuse_segment := True\<rparr>
      \<and> u' = u\<lparr>entities :=
            map (\<lambda>x. if slvs_index x = slvs_index (segment t)
                      then x\<lparr>dependency_is :=
                               [p1, p2] @ filter (\<lambda>d. d \<notin> set (connection_is cur)) (dependency_is cur),
                             connection_is := [p1, p2]\<rparr>
                      else x) (entities u)\<rparr>"
proof -
  from intr_get_point_materialized [OF assms(2)] obtain p1 where
    g1: "intr_get_point r1 t u = Inr (p1, t, u)" by blast
  from intr_get_point_materialized [OF assms(3)] obtain p2 where
    g2: "intr_get_point r2 t u = Inr (p2, t, u)" by blast
  from assms(4) g1 g2 assms(1) obtain n where
    sr: "segment_replace (segment t) p1 p2 True u = Inr (n, u')"
    and r: "cs' = cs" "t' = t\<lparr>reuse_segment := True\<rparr>" "ws = []"
    by (auto simp: replace_step_def split: sum.splits)
  from sr obtain cur where cur: "entities_get u (int (slvs_index (segment t))) = Some cur"
    by (auto simp: segment_replace_def split: option.splits)
  from sr cur have "u' = u\<lparr>entities :=
            map (\<lambda>x. if slvs_index x = slvs_index (segment t)
                      then x\<lparr>dependency_is :=
                               [p1, p2] @ filter (\<lambda>d. d \<notin> set (connection_is cur)) (dependency_is cur),
                             connection_is := [p1, p2]\<rparr>
                      else x) (entities u)\<rparr>"
    by (auto simp: segment_replace_def Let_def)
  with g1 g2 cur r show ?thesis by blast
qed

lemma respan_facts:
  fixes u :: scene and j :: nat and d :: "nat list" and c :: "nat list"
  defines "u' \<equiv> u\<lparr>entities :=
            map (\<lambda>x. if slvs_index x = j then x\<lparr>dependency_is := d, connection_is := c\<rparr> else x)
              (entities u)\<rparr>"
  shows "constraints u' = constraints u"
    and "map slvs_index (entities u') = map slvs_index (entities u)"
    and "entities_get u (int j) = Some cur \<Longrightarrow>
           entities_get u' (int j) = Some (cur\<lparr>dependency_is := d, connection_is := c\<rparr>)"
    and "not_sketch_index u k \<Longrightarrow> not_sketch_index u' k"
proof -
  let ?f = "\<lambda>x. if slvs_index x = j then x\<lparr>dependency_is := d, connection_is := c\<rparr> else x"
  show "constraints u' = constraints u" by (simp add: u'_def)
  have "slvs_index \<circ> ?f = slvs_index" by (rule ext) simp
  then show "map slvs_index (entities u') = map slvs_index (entities u)"
    by (simp add: u'_def)
  show "entities_get u' (int j) = Some (cur\<lparr>dependency_is := d, connection_is := c\<rparr>)"
    if g: "entities_get u (int j) = Some cur"
  proof -
    have "entities_get u' (int j) = map_option ?f (entities_get u (int j))"
      unfolding u'_def by (rule entities_get_map) simp
    with g entities_get_Some [OF g] show ?thesis by simp
  qed
  show "not_sketch_index u' k" if "not_sketch_index u k"
    using that by (auto simp: not_sketch_index_def u'_def list_all_iff)
qed

lemma copy_constraints_first:
  "copy_constraints 0 seg n cs s = Inr (cs', s', ws) \<Longrightarrow>
     cs' = cs \<and> s' = fold (\<lambda>(c, i, v). set_entity_i c i v) ws s
     \<and> list_all2 (\<lambda>(c, ents) (c', i, v). c' = c \<and> list_index ents seg = Some i \<and> v = n) cs ws"
proof (induction cs arbitrary: s cs' s' ws)
  case Nil
  then show ?case by simp
next
  case (Cons a cs)
  obtain c ents where a: "a = (c, ents)" by (cases a)
  from Cons.prems obtain i rest' ws' where
    i: "list_index ents seg = Some i"
    and r: "copy_constraints 0 seg n cs (set_entity_i c i n s) = Inr (rest', s', ws')"
    and e: "cs' = (c, ents) # rest'" "ws = (c, i, n) # ws'"
    unfolding a by (auto split: option.splits sum.splits)
  from Cons.IH [OF r] i e show ?case unfolding a by simp
qed

lemma set_entity_i_cids:
  "map cid (constraints_all (set_entity_i c i v s)) = map cid (constraints_all s)"
proof -
  let ?g = "\<lambda>c'. if cid c' = cid c then c'\<lparr>entity_is := (entity_is c')[i := v]\<rparr> else c'"
  have g: "cid \<circ> ?g = cid" by (rule ext) simp
  have "map cid (concat (map snd (map (\<lambda>(t, data_coll). (t, map ?g data_coll)) cs)))
      = map cid (concat (map snd cs))" for cs :: "(ctype \<times> constr list) list"
    by (induction cs) (auto simp: g)
  then show ?thesis by (simp add: constraints_all_def set_entity_i_def)
qed

lemma fold_set_entity_i:
  "map cid (constraints_all (fold (\<lambda>(c, i, v). set_entity_i c i v) ws s)) = map cid (constraints_all s)"
  "entities (fold (\<lambda>(c, i, v). set_entity_i c i v) ws s) = entities s"
  by (induction ws arbitrary: s) (auto simp: set_entity_i_cids set_entity_i_entities)

lemma fold_set_entity_i_cong:
  "constraints a = constraints b \<Longrightarrow>
     constraints (fold (\<lambda>(c, i, v). set_entity_i c i v) ws a)
       = constraints (fold (\<lambda>(c, i, v). set_entity_i c i v) ws b)"
proof (induction ws arbitrary: a b)
  case Nil
  then show ?case by simp
next
  case (Cons w ws)
  obtain c i v where w: "w = (c, i, v)" by (cases w)
  have "constraints (set_entity_i c i v a) = constraints (set_entity_i c i v b)"
    using Cons.prems by (simp add: set_entity_i_def)
  from Cons.IH [OF this] show ?case unfolding w by simp
qed

lemma fresh_index_greater: "e \<in> set (entities s) \<Longrightarrow> slvs_index e < fresh_index s"
  using fold_max_mem [of "slvs_index e" "map slvs_index (entities s)" 0]
  by (simp add: fresh_index_def less_Suc_eq_le)

lemma replace_step_first_circle:
  assumes "kind (segment t) = Circle"
    and "materialized (intersections t ! r1) u" and "materialized (intersections t ! r2) u"
    and "replace_step 0 (r1, r2) cs t u = Inr (cs', t', u', ws)"
  shows "cs' = cs \<and> t' = t
     \<and> list_all2 (\<lambda>(c, ents) (c', i, v).
          c' = c \<and> list_index ents (slvs_index (segment t)) = Some i \<and> v = fresh_index u) cs ws
     \<and> constraints u' = constraints (fold (\<lambda>(c, i, v). set_entity_i c i v) ws u)
     \<and> map cid (constraints_all u') = map cid (constraints_all u)
     \<and> entities_get u (int (fresh_index u)) = None
     \<and> entities_get u' (int (fresh_index u)) \<noteq> None"
proof -
  from intr_get_point_materialized [OF assms(2)] obtain p1 where
    g1: "intr_get_point r1 t u = Inr (p1, t, u)" by blast
  from intr_get_point_materialized [OF assms(3)] obtain p2 where
    g2: "intr_get_point r2 t u = Inr (p2, t, u)" by blast
  from assms(4) g1 g2 assms(1) obtain n u3 where
    sr: "segment_replace (segment t) p1 p2 False u = Inr (n, u3)"
    and cc: "copy_constraints 0 (slvs_index (segment t)) n cs u3 = Inr (cs', u', ws)"
    and t': "t' = t"
    by (auto simp: replace_step_def split: sum.splits)
  from sr have n: "n = fresh_index u" and c3: "constraints u3 = constraints u"
    and e3: "map slvs_index (entities u3) = map slvs_index (entities u) @ [fresh_index u]"
    by (auto simp: segment_replace_def Let_def split: option.splits)
  note cf = copy_constraints_first [OF cc]
  have u': "u' = fold (\<lambda>(c, i, v). set_entity_i c i v) ws u3" using cf by simp
  have "constraints u' = constraints (fold (\<lambda>(c, i, v). set_entity_i c i v) ws u)"
    unfolding u' using c3 by (rule fold_set_entity_i_cong)
  moreover have "map cid (constraints_all u') = map cid (constraints_all u)"
    unfolding u' fold_set_entity_i(1) using c3 by (simp add: constraints_all_def)
  moreover have "entities_get u (int (fresh_index u)) = None"
    using fresh_index_greater [of _ u] by (fastforce simp: entities_get_None_iff)
  moreover have "entities_get u' (int (fresh_index u)) \<noteq> None"
  proof -
    have "entities u' = entities u3" unfolding u' by (rule fold_set_entity_i(2))
    then have "set (map slvs_index (entities u')) = set (map slvs_index (entities u) @ [fresh_index u])"
      using e3 by simp
    then have "fresh_index u \<in> slvs_index ` set (entities u')" by (simp only: set_map) simp
    then show ?thesis by (rule entities_get_not_None_iff [THEN iffD2])
  qed
  ultimately show ?thesis using cf t' n by simp
qed


lemma cleanup_spares_mono:
  "(\<And>k. not_sketch_index a k \<Longrightarrow> not_sketch_index b k) \<Longrightarrow> cleanup_spares j a el \<Longrightarrow> cleanup_spares j b el"
  by (auto simp: cleanup_spares_def split: elem.splits)

lemma replace_first_pair:
  assumes "replace das ts s = Inr (ts', s')"
    and "relevant_intersections das ts = Inr (relevant, ts1)"
    and "2 \<le> length relevant"
  obtains ts2 s2 cs1 ts3 s3 ws cs4 s4 s5 where
    "ensure_points das ts1 s = Inr (ts2, s2)"
    "segment ts2 = segment ts"
    "materialized (intersections ts2 ! (relevant ! 0)) s2"
    "materialized (intersections ts2 ! (relevant ! 1)) s2"
    "replace_step 0 (relevant ! 0, relevant ! 1)
       (map (\<lambda>c. (c, constr_entities c))
          (filter (\<lambda>c. slvs_index (segment ts) \<in> set (constr_entities c)) (constraints_all s)))
       ts2 s2 = Inr (cs1, ts3, s3, ws)"
    "replace_loop (Suc 0)
       (map (\<lambda>i. (relevant ! (i * 2), relevant ! (i * 2 + 1))) [1..<length relevant div 2])
       cs1 ts3 s3 = Inr (cs4, ts', s4)"
    "remove_obsolete (obsolete_intersections ts') ts' s4 = Inr s5"
    "s' = (if \<not> reuse_segment ts' then entities_remove (slvs_index (segment ts')) s5 else s5)"
proof -
  from assms(1) obtain relevant' ts1' ts2 s2 cs ts3 s3 s4 where
    r: "relevant_intersections das ts = Inr (relevant', ts1')"
    and e: "ensure_points das ts1' s = Inr (ts2, s2)"
    and l: "replace_loop 0 (map (\<lambda>i. (relevant' ! (i * 2), relevant' ! (i * 2 + 1))) [0..<length relevant' div 2])
       (map (\<lambda>c. (c, constr_entities c))
          (filter (\<lambda>c. slvs_index (segment ts1') \<in> set (constr_entities c)) (constraints_all s)))
       ts2 s2 = Inr (cs, ts3, s3)"
    and o: "remove_obsolete (obsolete_intersections ts3) ts3 s3 = Inr s4"
    and ts': "ts' = ts3"
    and s': "s' = (if \<not> reuse_segment ts3 then entities_remove (slvs_index (segment ts3)) s4 else s4)"
    by (rule replace_Inr)
  from r assms(2) have eq: "relevant' = relevant" "ts1' = ts1" by simp_all
  have sg1: "segment ts1 = segment ts"
    using relevant_intersections_fields [OF assms(2)] by simp
  have sg2: "segment ts2 = segment ts"
    using ensure_points_fields [OF e] sg1 eq by simp
  from l obtain cs1 t1 u1 ws where
    st: "replace_step 0 (relevant ! 0, relevant ! 1)
       (map (\<lambda>c. (c, constr_entities c))
          (filter (\<lambda>c. slvs_index (segment ts) \<in> set (constr_entities c)) (constraints_all s)))
       ts2 s2 = Inr (cs1, t1, u1, ws)"
    and lp: "replace_loop (Suc 0)
       (map (\<lambda>i. (relevant ! (i * 2), relevant ! (i * 2 + 1))) [1..<length relevant div 2])
       cs1 t1 u1 = Inr (cs, ts3, s3)"
    unfolding eq sg1 first_pair [OF assms(3)] by (auto split: sum.splits)
  have m: "\<forall>r \<in> set relevant. materialized (intersections ts2 ! r) s2"
    using ensure_points_materialized [OF assms(2)] e eq by simp
  have m0: "materialized (intersections ts2 ! (relevant ! 0)) s2"
    and m1: "materialized (intersections ts2 ! (relevant ! 1)) s2"
    using m assms(3) by (auto intro!: nth_mem)
  from e eq sg2 m0 m1 st lp o s' ts' that show ?thesis by simp
qed

lemma replace_reused_final:
  assumes "replace das ts s = Inr (ts', s')"
    and "relevant_intersections das ts = Inr (relevant, ts1)"
    and "2 \<le> length relevant" and "kind (segment ts) \<noteq> Circle"
    and "entities_get s (int (slvs_index (segment ts))) = Some e" and "is_segment e"
    and "list_all (\<lambda>r. cleanup_spares (slvs_index (segment ts)) s (element (intersections ts' ! r)))
           (obsolete_intersections ts')"
  shows "\<exists>ts2 s2 p1 p2 s3.
      ensure_points das ts1 s = Inr (ts2, s2)
      \<and> intr_get_point (relevant ! 0) ts2 s2 = Inr (p1, ts2, s2)
      \<and> intr_get_point (relevant ! 1) ts2 s2 = Inr (p2, ts2, s2)
      \<and> replace_step 0 (relevant ! 0, relevant ! 1)
           (map (\<lambda>c. (c, constr_entities c))
              (filter (\<lambda>c. slvs_index (segment ts) \<in> set (constr_entities c)) (constraints_all s)))
           ts2 s2
         = Inr (map (\<lambda>c. (c, constr_entities c))
                  (filter (\<lambda>c. slvs_index (segment ts) \<in> set (constr_entities c)) (constraints_all s)),
                ts2\<lparr>reuse_segment := True\<rparr>, s3, [])
      \<and> map slvs_index (entities s3) = map slvs_index (entities s2)
      \<and> constraints s3 = constraints s2
      \<and> entities_get s3 (int (slvs_index (segment ts)))
          = Some (e\<lparr>dependency_is := [p1, p2] @ filter (\<lambda>d. d \<notin> set (connection_is e)) (dependency_is e),
                    connection_is := [p1, p2]\<rparr>)
      \<and> entities_get s' (int (slvs_index (segment ts)))
          = Some (e\<lparr>dependency_is := [p1, p2] @ filter (\<lambda>d. d \<notin> set (connection_is e)) (dependency_is e),
                    connection_is := [p1, p2]\<rparr>)"
proof -
  let ?j = "slvs_index (segment ts)"
  let ?cs = "map (\<lambda>c. (c, constr_entities c))
          (filter (\<lambda>c. ?j \<in> set (constr_entities c)) (constraints_all s))"
  from assms(1-3) obtain ts2 s2 cs1 ts3 s3 ws cs4 s4 s5 where
    e: "ensure_points das ts1 s = Inr (ts2, s2)"
    and sg2: "segment ts2 = segment ts"
    and m0: "materialized (intersections ts2 ! (relevant ! 0)) s2"
    and m1: "materialized (intersections ts2 ! (relevant ! 1)) s2"
    and st: "replace_step 0 (relevant ! 0, relevant ! 1) ?cs ts2 s2 = Inr (cs1, ts3, s3, ws)"
    and lp: "replace_loop (Suc 0)
       (map (\<lambda>i. (relevant ! (i * 2), relevant ! (i * 2 + 1))) [1..<length relevant div 2])
       cs1 ts3 s3 = Inr (cs4, ts', s4)"
    and ro: "remove_obsolete (obsolete_intersections ts') ts' s4 = Inr s5"
    and s': "s' = (if \<not> reuse_segment ts' then entities_remove (slvs_index (segment ts')) s5 else s5)"
    by (rule replace_first_pair)
  have k: "kind (segment ts2) \<noteq> Circle" using assms(4) sg2 by simp
  from replace_step_first_reused [OF k m0 m1 st] obtain p1 p2 cur where
    g1: "intr_get_point (relevant ! 0) ts2 s2 = Inr (p1, ts2, s2)"
    and g2: "intr_get_point (relevant ! 1) ts2 s2 = Inr (p2, ts2, s2)"
    and cur: "entities_get s2 (int ?j) = Some cur"
    and r: "cs1 = ?cs" "ws = []" "ts3 = ts2\<lparr>reuse_segment := True\<rparr>"
    and s3: "s3 = s2\<lparr>entities :=
            map (\<lambda>x. if slvs_index x = ?j
                      then x\<lparr>dependency_is :=
                               [p1, p2] @ filter (\<lambda>d. d \<notin> set (connection_is cur)) (dependency_is cur),
                             connection_is := [p1, p2]\<rparr>
                      else x) (entities s2)\<rparr>"
    unfolding sg2 by blast
  let ?e' = "e\<lparr>dependency_is := [p1, p2] @ filter (\<lambda>d. d \<notin> set (connection_is e)) (dependency_is e),
                    connection_is := [p1, p2]\<rparr>"
  have x1: "extends s s2" using ensure_points_extends [OF e] .
  have "entities_get s2 (int ?j) = Some e" using extends_get [OF x1 assms(5)] .
  with cur have ce: "cur = e" by simp
  note rf = respan_facts [where u = s2 and j = ?j
      and d = "[p1, p2] @ filter (\<lambda>d. d \<notin> set (connection_is cur)) (dependency_is cur)"
      and c = "[p1, p2]", folded s3]
  have a3: "entities_get s3 (int ?j) = Some ?e'"
    using rf(3) [OF cur] ce by simp
  have seg': "is_segment ?e'" using assms(6) by (simp add: is_segment_def)
  have sg3: "segment ts3 = segment ts" using r(3) sg2 by simp
  have x3: "extends s3 s4"
    using replace_loop_extends [OF lp _ _ seg'] a3 sg3 by simp
  have a4: "entities_get s4 (int ?j) = Some ?e'" using extends_get [OF x3 a3] .
  have ns: "not_sketch_index s4 k" if "not_sketch_index s k" for k
    using extends_not_sketch [OF x3 rf(4) [OF extends_not_sketch [OF x1 that]]] .
  have "list_all (\<lambda>r. cleanup_spares ?j s4 (element (intersections ts' ! r))) (obsolete_intersections ts')"
    using assms(7) cleanup_spares_mono [of s s4 ?j] ns by (auto simp: list_all_iff)
  from remove_obsolete_spares [OF ro this] a4 have a5: "entities_get s5 (int ?j) = Some ?e'"
    by simp
  have "reuse_segment ts'"
    using replace_loop_reuse [OF lp] r(3) by simp
  with s' a5 have "entities_get s' (int ?j) = Some ?e'" by simp
  with e g1 g2 st r rf(1,2) a3 show ?thesis by blast
qed

lemma ex_near_facts:
  "collect_intersections ex_intersect ex_line (1, 0) ex_trim_scene
     = Inr (ex_near_trim [-1, -1, -1, -1] [None, None, None, None] [] False)"
  "check ex_das (ex_near_trim [-1, -1, -1, -1] [None, None, None, None] [] False)
     = Inr (True, ex_near_trim [3, 2, 0, 1] [None, None, None, None] [0] False)"
  "relevant_intersections ex_das (ex_near_trim [3, 2, 0, 1] [None, None, None, None] [0] False)
     = Inr ([2, 1], ex_near_trim [3, 2, 0, 1] [None, None, None, None] [0] False)"
  "replace ex_das (ex_near_trim [3, 2, 0, 1] [None, None, None, None] [0] False) ex_trim_scene
     = Inr (ex_near_trim [3, 2, 0, 1] [None, None, Some 10, None] [0] True, ex_near_trimmed_scene)"
  by code_simp+

text \<open>
  Claim C3: in \<^verbatim>\<open>replace\<close> the first pair of relevant intersections reuses the original
  segment entity, mutated in place under its index, if and only if the segment is not a
  circle; a circle is never reused; and whenever no pair reuses the original segment, it is
  removed from the scene at the end of \<^verbatim>\<open>replace\<close>. The reuse flag is read after
  \<^verbatim>\<open>replace\<close> has returned. When it is set, and the scene held a segment \<open>e\<close> under the
  index of the original segment, and the cleanup spares that index, then the pass of the
  first pair allocates no index and copies or writes no constraint, and the scene that
  \<^verbatim>\<open>replace\<close> returns holds under that index the entity \<open>e\<close> with its two connection points
  replaced by the points of the first pair.
\<close>

theorem first_pair_reuses_unless_circle:
  assumes "replace das ts s = Inr (ts', s')" and "\<not> reuse_segment ts"
    and "relevant_intersections das ts = Inr (relevant, ts1)"
  shows "reuse_segment ts' = (2 \<le> length relevant \<and> kind (segment ts) \<noteq> Circle)
     \<and> (kind (segment ts) = Circle \<longrightarrow> \<not> reuse_segment ts')
     \<and> (\<not> reuse_segment ts' \<longrightarrow> entities_get s' (int (slvs_index (segment ts))) = None)
     \<and> (reuse_segment ts' \<and> entities_get s (int (slvs_index (segment ts))) = Some e
          \<and> is_segment e
          \<and> list_all (\<lambda>r. cleanup_spares (slvs_index (segment ts)) s (element (intersections ts' ! r)))
                (obsolete_intersections ts') \<longrightarrow>
          (\<exists>ts2 s2 p1 p2 s3.
             ensure_points das ts1 s = Inr (ts2, s2)
             \<and> intr_get_point (relevant ! 0) ts2 s2 = Inr (p1, ts2, s2)
             \<and> intr_get_point (relevant ! 1) ts2 s2 = Inr (p2, ts2, s2)
             \<and> replace_step 0 (relevant ! 0, relevant ! 1)
                  (map (\<lambda>c. (c, constr_entities c))
                     (filter (\<lambda>c. slvs_index (segment ts) \<in> set (constr_entities c))
                        (constraints_all s)))
                  ts2 s2
                = Inr (map (\<lambda>c. (c, constr_entities c))
                         (filter (\<lambda>c. slvs_index (segment ts) \<in> set (constr_entities c))
                            (constraints_all s)),
                       ts2\<lparr>reuse_segment := True\<rparr>, s3, [])
             \<and> map slvs_index (entities s3) = map slvs_index (entities s2)
             \<and> constraints s3 = constraints s2
             \<and> entities_get s3 (int (slvs_index (segment ts)))
                 = Some (e\<lparr>dependency_is :=
                              [p1, p2] @ filter (\<lambda>d. d \<notin> set (connection_is e)) (dependency_is e),
                           connection_is := [p1, p2]\<rparr>)
             \<and> entities_get s' (int (slvs_index (segment ts)))
                 = Some (e\<lparr>dependency_is :=
                              [p1, p2] @ filter (\<lambda>d. d \<notin> set (connection_is e)) (dependency_is e),
                           connection_is := [p1, p2]\<rparr>)))"
proof -
  note r = replace_reuse [OF assms]
  show ?thesis
  proof (intro conjI impI)
    show "reuse_segment ts' = (2 \<le> length relevant \<and> kind (segment ts) \<noteq> Circle)"
      using r(1) .
    show "\<not> reuse_segment ts'" if "kind (segment ts) = Circle"
      using r(1) that by simp
    show "entities_get s' (int (slvs_index (segment ts))) = None" if "\<not> reuse_segment ts'"
      using r(2) that .
  next
    assume a: "reuse_segment ts' \<and> entities_get s (int (slvs_index (segment ts))) = Some e
          \<and> is_segment e
          \<and> list_all (\<lambda>r. cleanup_spares (slvs_index (segment ts)) s (element (intersections ts' ! r)))
                (obsolete_intersections ts')"
    with r(1) have l: "2 \<le> length relevant" and k: "kind (segment ts) \<noteq> Circle" by simp_all
    from a have g: "entities_get s (int (slvs_index (segment ts))) = Some e"
      and sg: "is_segment e"
      and sp: "list_all (\<lambda>r. cleanup_spares (slvs_index (segment ts)) s (element (intersections ts' ! r)))
                (obsolete_intersections ts')"
      by simp_all
    from replace_reused_final [OF assms(1,3) l k g sg sp]
    show "\<exists>ts2 s2 p1 p2 s3.
             ensure_points das ts1 s = Inr (ts2, s2)
             \<and> intr_get_point (relevant ! 0) ts2 s2 = Inr (p1, ts2, s2)
             \<and> intr_get_point (relevant ! 1) ts2 s2 = Inr (p2, ts2, s2)
             \<and> replace_step 0 (relevant ! 0, relevant ! 1)
                  (map (\<lambda>c. (c, constr_entities c))
                     (filter (\<lambda>c. slvs_index (segment ts) \<in> set (constr_entities c))
                        (constraints_all s)))
                  ts2 s2
                = Inr (map (\<lambda>c. (c, constr_entities c))
                         (filter (\<lambda>c. slvs_index (segment ts) \<in> set (constr_entities c))
                            (constraints_all s)),
                       ts2\<lparr>reuse_segment := True\<rparr>, s3, [])
             \<and> map slvs_index (entities s3) = map slvs_index (entities s2)
             \<and> constraints s3 = constraints s2
             \<and> entities_get s3 (int (slvs_index (segment ts)))
                 = Some (e\<lparr>dependency_is :=
                              [p1, p2] @ filter (\<lambda>d. d \<notin> set (connection_is e)) (dependency_is e),
                           connection_is := [p1, p2]\<rparr>)
             \<and> entities_get s' (int (slvs_index (segment ts)))
                 = Some (e\<lparr>dependency_is :=
                              [p1, p2] @ filter (\<lambda>d. d \<notin> set (connection_is e)) (dependency_is e),
                           connection_is := [p1, p2]\<rparr>)" .
  qed
qed

theorem first_pair_reuses_unless_circle_witness:
  "replace ex_das (ex_near_trim [3, 2, 0, 1] [None, None, None, None] [0] False) ex_trim_scene
     = Inr (ex_near_trim [3, 2, 0, 1] [None, None, Some 10, None] [0] True, ex_near_trimmed_scene)
   \<and> reuse_segment (ex_near_trim [3, 2, 0, 1] [None, None, Some 10, None] [0] True)
   \<and> entities_get ex_trim_scene 3 = Some (ex_segment 3 Line2D [1, 2, 0] [1, 2])
   \<and> (\<exists>p1 p2. entities_get ex_near_trimmed_scene 3
         = Some ((ex_segment 3 Line2D [1, 2, 0] [1, 2])
                   \<lparr>dependency_is := [p1, p2, 0], connection_is := [p1, p2]\<rparr>))
   \<and> entities_get ex_near_trimmed_scene 3 = Some (ex_segment 3 Line2D [10, 2, 0] [10, 2])
   \<and> entities_get ex_near_trimmed_scene 1 = None
   \<and> replace ex_circle_das (ex_circle_crossed_trim [0, 1] [None, None]) ex_circle_crossed_scene
     = Inr (ex_circle_crossed_trim [0, 1] [Some 6, Some 7], ex_circle_trimmed_scene)
   \<and> \<not> reuse_segment (ex_circle_crossed_trim [0, 1] [Some 6, Some 7])
   \<and> entities_get ex_circle_trimmed_scene 2 = None"
proof -
  let ?t = "ex_near_trim [3, 2, 0, 1] [None, None, None, None] [0] False"
  let ?t' = "ex_near_trim [3, 2, 0, 1] [None, None, Some 10, None] [0] True"
  have a: "\<not> reuse_segment ?t" by code_simp
  have b: "\<not> reuse_segment (ex_circle_crossed_trim [0, 1] [None, None])"
    by code_simp
  have c: "reuse_segment ?t'"
    "entities_get ex_trim_scene (int (slvs_index (segment ?t))) = Some ex_line"
    "is_segment ex_line"
    "list_all (\<lambda>r. cleanup_spares (slvs_index (segment ?t)) ex_trim_scene (element (intersections ?t' ! r)))
       (obsolete_intersections ?t')"
    by code_simp+
  have d: "int (slvs_index (segment ?t)) = 3"
    "filter (\<lambda>d. d \<notin> set (connection_is ex_line)) (dependency_is ex_line) = [0]"
    "ex_line = ex_segment 3 Line2D [1, 2, 0] [1, 2]"
    "entities_get ex_trim_scene 3 = Some (ex_segment 3 Line2D [1, 2, 0] [1, 2])"
    "entities_get ex_near_trimmed_scene 3 = Some (ex_segment 3 Line2D [10, 2, 0] [10, 2])"
    "entities_get ex_near_trimmed_scene 1 = None"
    "kind (segment (ex_circle_crossed_trim [0, 1] [None, None])) = Circle"
    "int (slvs_index (segment (ex_circle_crossed_trim [0, 1] [None, None]))) = 2"
    by code_simp+
  note n = first_pair_reuses_unless_circle [OF ex_near_facts(4) a ex_near_facts(3), of ex_line]
  from n c have "\<exists>p1 p2. entities_get ex_near_trimmed_scene (int (slvs_index (segment ?t)))
         = Some (ex_line\<lparr>dependency_is :=
                            [p1, p2] @ filter (\<lambda>d. d \<notin> set (connection_is ex_line)) (dependency_is ex_line),
                          connection_is := [p1, p2]\<rparr>)"
    by blast
  then have e: "\<exists>p1 p2. entities_get ex_near_trimmed_scene 3
         = Some ((ex_segment 3 Line2D [1, 2, 0] [1, 2])
                   \<lparr>dependency_is := [p1, p2, 0], connection_is := [p1, p2]\<rparr>)"
    unfolding d(1,2) unfolding d(3) by simp
  from first_pair_reuses_unless_circle [OF ex_circle_facts(4) b ex_circle_facts(3)] d(7,8)
  have f: "\<not> reuse_segment (ex_circle_crossed_trim [0, 1] [Some 6, Some 7])"
    "entities_get ex_circle_trimmed_scene 2 = None"
    by simp_all
  from ex_near_facts(4) c(1) d(4,5,6) e ex_circle_facts(4) f show ?thesis
    by (intro conjI)
qed

section \<open>Properties: the constraints of the original segment\<close>

lemma first_step_constraints:
  assumes "replace das ts s = Inr (ts', s')"
    and "relevant_intersections das ts = Inr (relevant, ts1)"
    and "2 \<le> length relevant"
  shows "\<exists>ts2 s2 ts3 s3 writes.
      ensure_points das ts1 s = Inr (ts2, s2)
      \<and> replace_step 0 (relevant ! 0, relevant ! 1)
           (map (\<lambda>c. (c, constr_entities c))
              (filter (\<lambda>c. slvs_index (segment ts) \<in> set (constr_entities c)) (constraints_all s)))
           ts2 s2
         = Inr (map (\<lambda>c. (c, constr_entities c))
                  (filter (\<lambda>c. slvs_index (segment ts) \<in> set (constr_entities c)) (constraints_all s)),
                ts3, s3, writes)
      \<and> map cid (constraints_all s3) = map cid (constraints_all s2)
      \<and> (kind (segment ts) \<noteq> Circle \<longrightarrow>
           writes = [] \<and> constraints s3 = constraints s2
           \<and> set (filter (\<lambda>c. slvs_index (segment ts) \<in> set (constr_entities c)) (constraints_all s))
               \<subseteq> set (constraints_all s3)
           \<and> map slvs_index (entities s3) = map slvs_index (entities s2)
           \<and> entities_get s3 (int (slvs_index (segment ts))) \<noteq> None)
      \<and> (kind (segment ts) = Circle \<longrightarrow>
           list_all2 (\<lambda>(c, ents) (c', i, v).
               c' = c \<and> list_index ents (slvs_index (segment ts)) = Some i \<and> v = fresh_index s2)
             (map (\<lambda>c. (c, constr_entities c))
                (filter (\<lambda>c. slvs_index (segment ts) \<in> set (constr_entities c)) (constraints_all s)))
             writes
           \<and> constraints s3 = constraints (fold (\<lambda>(c, i, v). set_entity_i c i v) writes s2)
           \<and> entities_get s2 (int (fresh_index s2)) = None
           \<and> entities_get s3 (int (fresh_index s2)) \<noteq> None)"
proof -
  let ?j = "slvs_index (segment ts)"
  let ?cs = "map (\<lambda>c. (c, constr_entities c))
          (filter (\<lambda>c. ?j \<in> set (constr_entities c)) (constraints_all s))"
  from assms(1-3) obtain ts2 s2 cs1 ts3 s3 ws cs4 s4 s5 where
    e: "ensure_points das ts1 s = Inr (ts2, s2)"
    and sg2: "segment ts2 = segment ts"
    and m0: "materialized (intersections ts2 ! (relevant ! 0)) s2"
    and m1: "materialized (intersections ts2 ! (relevant ! 1)) s2"
    and st: "replace_step 0 (relevant ! 0, relevant ! 1) ?cs ts2 s2 = Inr (cs1, ts3, s3, ws)"
    by (rule replace_first_pair)
  show ?thesis
  proof (cases "kind (segment ts) = Circle")
    case True
    then have k: "kind (segment ts2) = Circle" using sg2 by simp
    from replace_step_first_circle [OF k m0 m1 st] e st True show ?thesis
      unfolding sg2 by auto
  next
    case False
    then have k: "kind (segment ts2) \<noteq> Circle" using sg2 by simp
    from replace_step_first_reused [OF k m0 m1 st] obtain p1 p2 cur where
      cur: "entities_get s2 (int ?j) = Some cur"
      and r: "cs1 = ?cs" "ws = []"
      and s3: "s3 = s2\<lparr>entities :=
            map (\<lambda>x. if slvs_index x = ?j
                      then x\<lparr>dependency_is :=
                               [p1, p2] @ filter (\<lambda>d. d \<notin> set (connection_is cur)) (dependency_is cur),
                             connection_is := [p1, p2]\<rparr>
                      else x) (entities s2)\<rparr>"
      unfolding sg2 by blast
    note rf = respan_facts [where u = s2 and j = ?j
      and d = "[p1, p2] @ filter (\<lambda>d. d \<notin> set (connection_is cur)) (dependency_is cur)"
      and c = "[p1, p2]", folded s3]
    have ca: "constraints_all s3 = constraints_all s2"
      using rf(1) by (simp add: constraints_all_def)
    have "set (filter (\<lambda>c. ?j \<in> set (constr_entities c)) (constraints_all s))
        \<subseteq> set (constraints_all s3)"
      unfolding ca using ensure_points_keeps [OF e] by auto
    moreover have "entities_get s3 (int ?j) \<noteq> None" using rf(3) [OF cur] by simp
    ultimately show ?thesis using e st r rf(1,2) ca False by auto
  qed
qed

text \<open>
  Claim C7, as amended: when the first pair reuses the original segment, the constraints that
  referenced the original segment are neither copied nor written: that pass leaves the loop
  body before the loop over the constraints, no field is set and no constraint object is
  created, and the constraints keep the index of the original segment, under which the
  mutated segment stays stored. The fields are set when the first pair does not reuse the
  segment, which is the case of a circle: each constraint that referenced the circle has the
  field that held it set to the index of the new segment, and no constraint object is
  created either. The claim as written has the fields set in the reusing pass.
\<close>

theorem first_pair_constraints:
  assumes "replace das ts s = Inr (ts', s')"
    and "relevant_intersections das ts = Inr (relevant, ts1)"
    and "2 \<le> length relevant"
  shows "(\<exists>ts2 s2 ts3 s3 writes.
      ensure_points das ts1 s = Inr (ts2, s2)
      \<and> replace_step 0 (relevant ! 0, relevant ! 1)
           (map (\<lambda>c. (c, constr_entities c))
              (filter (\<lambda>c. slvs_index (segment ts) \<in> set (constr_entities c)) (constraints_all s)))
           ts2 s2
         = Inr (map (\<lambda>c. (c, constr_entities c))
                  (filter (\<lambda>c. slvs_index (segment ts) \<in> set (constr_entities c)) (constraints_all s)),
                ts3, s3, writes)
      \<and> map cid (constraints_all s3) = map cid (constraints_all s2)
      \<and> (kind (segment ts) \<noteq> Circle \<longrightarrow>
           writes = [] \<and> constraints s3 = constraints s2
           \<and> set (filter (\<lambda>c. slvs_index (segment ts) \<in> set (constr_entities c)) (constraints_all s))
               \<subseteq> set (constraints_all s3)
           \<and> map slvs_index (entities s3) = map slvs_index (entities s2)
           \<and> entities_get s3 (int (slvs_index (segment ts))) \<noteq> None)
      \<and> (kind (segment ts) = Circle \<longrightarrow>
           list_all2 (\<lambda>(c, ents) (c', i, v).
               c' = c \<and> list_index ents (slvs_index (segment ts)) = Some i \<and> v = fresh_index s2)
             (map (\<lambda>c. (c, constr_entities c))
                (filter (\<lambda>c. slvs_index (segment ts) \<in> set (constr_entities c)) (constraints_all s)))
             writes
           \<and> constraints s3 = constraints (fold (\<lambda>(c, i, v). set_entity_i c i v) writes s2)
           \<and> entities_get s2 (int (fresh_index s2)) = None
           \<and> entities_get s3 (int (fresh_index s2)) \<noteq> None))
    \<and> (kind (segment ts) \<noteq> Circle
          \<and> entities_get s (int (slvs_index (segment ts))) = Some e \<and> is_segment e
          \<and> list_all (\<lambda>r. cleanup_spares (slvs_index (segment ts)) s (element (intersections ts' ! r)))
                (obsolete_intersections ts') \<longrightarrow>
        entities_get s' (int (slvs_index (segment ts))) \<noteq> None)"
proof -
  have "entities_get s' (int (slvs_index (segment ts))) \<noteq> None"
    if a: "kind (segment ts) \<noteq> Circle
          \<and> entities_get s (int (slvs_index (segment ts))) = Some e \<and> is_segment e
          \<and> list_all (\<lambda>r. cleanup_spares (slvs_index (segment ts)) s (element (intersections ts' ! r)))
                (obsolete_intersections ts')"
  proof -
    from a have k: "kind (segment ts) \<noteq> Circle"
      and g: "entities_get s (int (slvs_index (segment ts))) = Some e" and sg: "is_segment e"
      and sp: "list_all (\<lambda>r. cleanup_spares (slvs_index (segment ts)) s (element (intersections ts' ! r)))
                (obsolete_intersections ts')"
      by simp_all
    from replace_reused_final [OF assms k g sg sp] show ?thesis by auto
  qed
  with first_step_constraints [OF assms] show ?thesis by blast
qed

theorem reuse_writes_no_field_counterexample:
  "relevant_intersections ex_das (ex_crossed_trim [2, 1, 3, 0] [None, None, None, None] False)
     = Inr ([3, 1, 0, 2], ex_crossed_trim [2, 1, 3, 0] [None, None, None, None] False)
   \<and> filter (\<lambda>c. 3 \<in> set (constr_entities c)) (constraints_all ex_trim_scene)
       = [\<lparr>cid = 0, type = HORIZONTAL, entity_is = [3]\<rparr>]
   \<and> ensure_points ex_das (ex_crossed_trim [2, 1, 3, 0] [None, None, None, None] False) ex_trim_scene
       = Inr (ex_crossed_trim [2, 1, 3, 0] [None, None, Some 11, Some 10] False,
              ex_trim_scene_with_points)
   \<and> replace_step 0 (3, 1) [(\<lparr>cid = 0, type = HORIZONTAL, entity_is = [3]\<rparr>, [3])]
         (ex_crossed_trim [2, 1, 3, 0] [None, None, Some 11, Some 10] False) ex_trim_scene_with_points
       = Inr ([(\<lparr>cid = 0, type = HORIZONTAL, entity_is = [3]\<rparr>, [3])],
              ex_crossed_trim [2, 1, 3, 0] [None, None, Some 11, Some 10] True,
              ex_trim_scene_reused, [])
   \<and> constraints ex_trim_scene_reused = constraints ex_trim_scene_with_points"
  by code_simp

theorem first_pair_constraints_witness:
  "(\<exists>ts2 s2 ts3 s3.
      ensure_points ex_das (ex_crossed_trim [2, 1, 3, 0] [None, None, None, None] False) ex_trim_scene
        = Inr (ts2, s2)
      \<and> replace_step 0 (3, 1) [(\<lparr>cid = 0, type = HORIZONTAL, entity_is = [3]\<rparr>, [3])] ts2 s2
          = Inr ([(\<lparr>cid = 0, type = HORIZONTAL, entity_is = [3]\<rparr>, [3])], ts3, s3, [])
      \<and> constraints s3 = constraints s2
      \<and> \<lparr>cid = 0, type = HORIZONTAL, entity_is = [3]\<rparr> \<in> set (constraints_all s3)
      \<and> entities_get s3 3 \<noteq> None)
   \<and> entities_get ex_trimmed_scene 3 \<noteq> None
   \<and> (\<exists>ts2 s2 ts3 s3 i.
      ensure_points ex_circle_das (ex_circle_crossed_trim [0, 1] [None, None]) ex_circle_crossed_scene
        = Inr (ts2, s2)
      \<and> replace_step 0 (0, 1) [(\<lparr>cid = 0, type = DIAMETER, entity_is = [2]\<rparr>, [2])] ts2 s2
          = Inr ([(\<lparr>cid = 0, type = DIAMETER, entity_is = [2]\<rparr>, [2])], ts3, s3,
                 [(\<lparr>cid = 0, type = DIAMETER, entity_is = [2]\<rparr>, i, fresh_index s2)])
      \<and> list_index [2::nat] 2 = Some i
      \<and> constraints s3
          = constraints (set_entity_i \<lparr>cid = 0, type = DIAMETER, entity_is = [2]\<rparr> i (fresh_index s2) s2)
      \<and> entities_get s3 (int (fresh_index s2)) \<noteq> None)"
proof -
  let ?t = "ex_crossed_trim [2, 1, 3, 0] [None, None, None, None] False"
  let ?t' = "ex_crossed_trim [2, 1, 3, 0] [None, None, Some 11, Some 10] True"
  let ?c = "ex_circle_crossed_trim [0, 1] [None, None]"
  have l: "2 \<le> length [3, 1, 0, 2 :: nat]" "2 \<le> length [0, 1 :: nat]" by simp_all
  have d: "[3, 1, 0, 2 :: nat] ! 0 = 3" "[3, 1, 0, 2 :: nat] ! 1 = 1"
    "[0, 1 :: nat] ! 0 = 0" "[0, 1 :: nat] ! 1 = 1"
    "slvs_index (segment ?t) = 3" "slvs_index (segment ?c) = 2"
    "map (\<lambda>c. (c, constr_entities c))
       (filter (\<lambda>c. 3 \<in> set (constr_entities c)) (constraints_all ex_trim_scene))
       = [(\<lparr>cid = 0, type = HORIZONTAL, entity_is = [3]\<rparr>, [3])]"
    "filter (\<lambda>c. 3 \<in> set (constr_entities c)) (constraints_all ex_trim_scene)
       = [\<lparr>cid = 0, type = HORIZONTAL, entity_is = [3]\<rparr>]"
    "map (\<lambda>c. (c, constr_entities c))
       (filter (\<lambda>c. 2 \<in> set (constr_entities c)) (constraints_all ex_circle_crossed_scene))
       = [(\<lparr>cid = 0, type = DIAMETER, entity_is = [2]\<rparr>, [2])]"
    by code_simp+
  have k: "kind (segment ?t) \<noteq> Circle" "kind (segment ?c) = Circle"
    "entities_get ex_trim_scene (int 3) = Some ex_line" "is_segment ex_line"
    "list_all (\<lambda>r. cleanup_spares 3 ex_trim_scene (element (intersections ?t' ! r)))
       (obsolete_intersections ?t')"
    by code_simp+
  note a = first_pair_constraints [OF ex_line_facts(4) ex_line_facts(3) l(1), of ex_line,
      unfolded d]
  note b = first_pair_constraints [OF ex_circle_facts(4) ex_circle_facts(3) l(2), unfolded d]
  from a k have a1: "\<exists>ts2 s2 ts3 s3.
      ensure_points ex_das ?t ex_trim_scene = Inr (ts2, s2)
      \<and> replace_step 0 (3, 1) [(\<lparr>cid = 0, type = HORIZONTAL, entity_is = [3]\<rparr>, [3])] ts2 s2
          = Inr ([(\<lparr>cid = 0, type = HORIZONTAL, entity_is = [3]\<rparr>, [3])], ts3, s3, [])
      \<and> constraints s3 = constraints s2
      \<and> \<lparr>cid = 0, type = HORIZONTAL, entity_is = [3]\<rparr> \<in> set (constraints_all s3)
      \<and> entities_get s3 3 \<noteq> None"
    by (auto simp: constr_entities_def simp del: set_concat)
  from a k have a2: "entities_get ex_trimmed_scene 3 \<noteq> None" by simp
  from b k(2) obtain ts2 s2 ts3 s3 writes where
    e: "ensure_points ex_circle_das ?c ex_circle_crossed_scene = Inr (ts2, s2)"
    and st: "replace_step 0 (0, 1) [(\<lparr>cid = 0, type = DIAMETER, entity_is = [2]\<rparr>, [2])] ts2 s2
          = Inr ([(\<lparr>cid = 0, type = DIAMETER, entity_is = [2]\<rparr>, [2])], ts3, s3, writes)"
    and la: "list_all2 (\<lambda>(c, ents) (c', i, v).
               c' = c \<and> list_index ents (2::nat) = Some i \<and> v = fresh_index s2)
             [(\<lparr>cid = 0, type = DIAMETER, entity_is = [2]\<rparr>, [2])] writes"
    and cs: "constraints s3 = constraints (fold (\<lambda>(c, i, v). set_entity_i c i v) writes s2)"
    and g: "entities_get s3 (int (fresh_index s2)) \<noteq> None"
    by auto
  from la obtain i where w: "writes = [(\<lparr>cid = 0, type = DIAMETER, entity_is = [2]\<rparr>, i, fresh_index s2)]"
    and i: "list_index [2::nat] 2 = Some i"
    by (auto simp: list_all2_Cons1)
  from e st cs g i have "\<exists>ts2 s2 ts3 s3 i.
      ensure_points ex_circle_das ?c ex_circle_crossed_scene = Inr (ts2, s2)
      \<and> replace_step 0 (0, 1) [(\<lparr>cid = 0, type = DIAMETER, entity_is = [2]\<rparr>, [2])] ts2 s2
          = Inr ([(\<lparr>cid = 0, type = DIAMETER, entity_is = [2]\<rparr>, [2])], ts3, s3,
                 [(\<lparr>cid = 0, type = DIAMETER, entity_is = [2]\<rparr>, i, fresh_index s2)])
      \<and> list_index [2::nat] 2 = Some i
      \<and> constraints s3
          = constraints (set_entity_i \<lparr>cid = 0, type = DIAMETER, entity_is = [2]\<rparr> i (fresh_index s2) s2)
      \<and> entities_get s3 (int (fresh_index s2)) \<noteq> None"
    unfolding w by (intro exI [of _ ts2] exI [of _ s2] exI [of _ ts3] exI [of _ s3] exI [of _ i]) simp
  with a1 a2 show ?thesis by (intro conjI)
qed

end
